theory Spec2Isabelle
  imports Main "HOL-Library.AList"
begin

section \<open>JavaScript values\<close>

text \<open>
  The hook \<^verbatim>\<open>useEffectState<S, A>\<close> is generic in the state type \<open>S\<close>. A state is a
  JavaScript value: \<^verbatim>\<open>undefined\<close>, \<^verbatim>\<open>null\<close>, a boolean, a number (integers here), a
  string, or an object, given as the list of its own properties in the order in which
  they were created (JavaScript enumerates integer-like keys first; nothing here depends
  on the order of enumeration).
\<close>

datatype jsval =
    JUndefined
  | JNull
  | JBool bool
  | JNum int
  | JStr string
  | JObj "(string \<times> jsval) list"

text \<open>JavaScript truthiness, as tested by \<^verbatim>\<open>if (newState)\<close>.\<close>

fun truthy :: "jsval \<Rightarrow> bool" where
  "truthy JUndefined = False"
| "truthy JNull = False"
| "truthy (JBool b) = b"
| "truthy (JNum n) = (n \<noteq> 0)"
| "truthy (JStr s) = (s \<noteq> [])"
| "truthy (JObj ps) = True"

text \<open>The decimal numeral of a natural number, as JavaScript writes an array index.\<close>

function digits :: "nat \<Rightarrow> string" where
  "digits n =
     (if n < 10 then [char_of (48 + n)]
      else digits (n div 10) @ [char_of (48 + n mod 10)])"
  by pat_completeness auto
termination
  by (relation "measure id") auto

declare digits.simps [simp del]

text \<open>
  The own enumerable properties that the spread \<^verbatim>\<open>...state\<close> copies: those of an object;
  for a string its characters under their indices; none for \<^verbatim>\<open>undefined\<close>, \<^verbatim>\<open>null\<close>,
  booleans and numbers.
\<close>

definition own_properties :: "jsval \<Rightarrow> (string \<times> jsval) list" where
  "own_properties v =
     (case v of
        JObj ps \<Rightarrow> ps
      | JStr s \<Rightarrow> map (\<lambda>i. (digits i, JStr [s ! i])) [0..<length s]
      | _ \<Rightarrow> [])"

text \<open>The object literal \<^verbatim>\<open>{...state, k: x}\<close> of the test effects, for a key \<open>k\<close> that is
  not an array index (the keys are \<open>a\<close> and \<open>b\<close>): the property keeps its place if the state
  has it already and comes last otherwise.\<close>

definition spread_set :: "jsval \<Rightarrow> string \<Rightarrow> jsval \<Rightarrow> jsval" where
  "spread_set v k x = JObj (AList.update k x (own_properties v))"

text \<open>
  The names of the members of \<^verbatim>\<open>Object.prototype\<close>. A plain object such as \<^verbatim>\<open>{}\<close> or
  \<^verbatim>\<open>{[action]: 1}\<close> inherits them: reading \<^verbatim>\<open>obj[name]\<close> for one of these names gives
  the inherited member (a function, or \<^verbatim>\<open>Object.prototype\<close> itself for \<^verbatim>\<open>__proto__\<close>) unless
  the object has an own property of that name.
\<close>

definition object_prototype_names :: "string list" where
  "object_prototype_names =
     [''constructor'', ''hasOwnProperty'', ''isPrototypeOf'', ''propertyIsEnumerable'',
      ''toLocaleString'', ''toString'', ''valueOf'', ''__proto__'',
      ''__defineGetter__'', ''__defineSetter__'', ''__lookupGetter__'', ''__lookupSetter__'']"

section \<open>Promises, errors and effect programs\<close>

text \<open>
  A rejection reason is either the \<^verbatim>\<open>Error\<close> built by \<^verbatim>\<open>getNextTrace\<close>, whose message is
  \<^verbatim>\<open>Max circular dispatch depth of ${traceCount} reached for ${action}\<close> (kept as its two
  interpolated parts), or the \<^verbatim>\<open>TypeError\<close> of calling a method that does not exist, or
  whatever value an effect threw.
\<close>

datatype reason =
    MaxCircularDepth int string
  | TypeError
  | Thrown jsval

datatype outcome = Resolves jsval | Rejects reason

text \<open>A promise is pending (\<open>None\<close>) or settled with an outcome; promises are named by
  their index in the engine's list of promises.\<close>

type_synonym promise = "outcome option"

text \<open>
  An effect is a JavaScript function \<^verbatim>\<open>(state, dispatch) => S | void | Promise<S | void>\<close>.
  Its body is given as a program over the only engine operation it is handed, the
  trace-bound \<^verbatim>\<open>dispatch\<close>:
  \<^item> \<open>Return v\<close>: the effect returns \<open>v\<close>, or its promise resolves with \<open>v\<close>
    (\<open>JUndefined\<close> for a side effect that returns nothing);
  \<^item> \<open>Throw r\<close>: the effect throws \<open>r\<close>, or its promise rejects with \<open>r\<close>;
  \<^item> \<open>Call a k\<close>: the effect calls \<^verbatim>\<open>dispatch(a)\<close> and goes on with the returned promise;
  \<^item> \<open>Await p k\<close>: the effect awaits promise \<open>p\<close> and goes on with its outcome
    (an \<^verbatim>\<open>await\<close> inside \<^verbatim>\<open>try/catch\<close>; without \<^verbatim>\<open>catch\<close>, \<open>k (Rejects r) = Throw r\<close>).
\<close>

datatype prog =
    Return jsval
  | Throw reason
  | Call string "nat \<Rightarrow> prog"
  | Await nat "outcome \<Rightarrow> prog"

type_synonym effect = "jsval \<Rightarrow> prog"

text \<open>\<^verbatim>\<open>await dispatch(a)\<close> followed by the rest of the body (no \<^verbatim>\<open>catch\<close>).\<close>

definition await_dispatch :: "string \<Rightarrow> (jsval \<Rightarrow> prog) \<Rightarrow> prog" where
  "await_dispatch a k =
     Call a (\<lambda>p. Await p (\<lambda>out. case out of Resolves v \<Rightarrow> k v | Rejects r \<Rightarrow> Throw r))"

section \<open>The engine state\<close>

text \<open>
  A listener is the function object that \<^verbatim>\<open>getListener(effect)\<close> returns. JavaScript compares
  functions by identity (\<^verbatim>\<open>Array.prototype.includes\<close>, the duplicate check of
  \<^verbatim>\<open>addEventListener\<close>, \<^verbatim>\<open>removeEventListener\<close>), so a listener carries the identity
  \<open>lid\<close> it got when it was created, next to the effect it closes over.
\<close>

record listener =
  lid :: nat
  effect_of :: effect

text \<open>
  One run of a listener's \<^verbatim>\<open>async function\<close>: what is left of the effect's body, the
  promise whose \<^verbatim>\<open>resolve\<close>/\<^verbatim>\<open>reject\<close> pair came in the event's detail, and the trace
  object of the detail.
\<close>

record invocation =
  body :: prog
  settles :: nat
  trace_of :: nat

text \<open>
  A trace is a plain object. By its type its properties are numbers; at run time a
  property can also come to hold a string that is not a numeral (see \<open>getNextTrace\<close>),
  which is all that matters about such a string.
\<close>

datatype tentry = Count int | NonNumeral

type_synonym trace = "string \<Rightarrow> tentry option"

type_synonym event_target = "string \<Rightarrow> listener list"

text \<open>
  The refs and the state of the hook, and the JavaScript heap it uses: the promises made
  by \<^verbatim>\<open>dispatchTrace\<close>, the trace objects (mutated in place, hence a store indexed by
  object identity), and the listener runs that have not finished. The options are the
  same at every render, so \<^verbatim>\<open>maxTraceDepth\<close> is fixed when the hook is mounted.
  \<open>mounted\<close> is React's own knowledge of whether the component that called the hook is
  mounted: React drops a \<^verbatim>\<open>setState\<close> call made after the component was unmounted.
\<close>

record engine =
  stateRef :: jsval
  state :: jsval
  mounted :: bool
  target :: "event_target option"
  allEffectsArray :: "(string \<times> listener list) list"
  maxTraceDepth :: int
  next_lid :: nat
  promises :: "promise list"
  traces :: "trace list"
  running :: "invocation list"

section \<open>Options\<close>

record EffectStateOptions =
  dispatchMaxCircularCalls :: "int option"

text \<open>
  Modelled from the spec: the constant \<^verbatim>\<open>MAXDEPTH\<close> of \<^verbatim>\<open>useEffectState.constants\<close>, a file
  that is not among the sources. The spec gives the default maximum as 20, and so does the
  comment on \<^verbatim>\<open>dispatchMaxCircularCalls\<close> in \<^verbatim>\<open>useEffectState.types.ts\<close>.
\<close>

definition MAXDEPTH :: int where
  "MAXDEPTH = 20"

text \<open>\<^verbatim>\<open>options?.dispatchMaxCircularCalls || MAXDEPTH\<close>: \<^verbatim>\<open>||\<close> takes the right operand when
  the left one is \<^verbatim>\<open>undefined\<close> or \<^verbatim>\<open>0\<close>.\<close>

definition initMaxTraceDepth :: "EffectStateOptions option \<Rightarrow> int" where
  "initMaxTraceDepth options =
     (case options of
        None \<Rightarrow> MAXDEPTH
      | Some opts \<Rightarrow>
          (case dispatchMaxCircularCalls opts of
             None \<Rightarrow> MAXDEPTH
           | Some n \<Rightarrow> if n = 0 then MAXDEPTH else n))"

section \<open>The circular dispatch guard\<close>

text \<open>
  \<^verbatim>\<open>getNextTrace(action, trace?)\<close> on the contents of the trace object. \<open>Inl\<close> is the
  \<^verbatim>\<open>throw\<close>. With a trace given, the source writes into that object and returns it;
  \<open>dispatchTrace\<close> below stores the result back at the same identity.

  \<^verbatim>\<open>trace[action] || 0\<close> reads an own property, or else an inherited member, or else
  gives 0. An own number is counted as the source says. An inherited member and a string
  that is not a numeral are truthy, compare as \<^verbatim>\<open>NaN\<close> (so \<^verbatim>\<open>traceCount > maxTraceDepth\<close> is
  false), and \<^verbatim>\<open>traceCount + 1\<close> is their text followed by \<^verbatim>\<open>1\<close>, again a string that is
  not a numeral; the assignment stores it as an own property, except for \<^verbatim>\<open>__proto__\<close>,
  whose inherited setter ignores a string.
\<close>

definition getNextTrace :: "int \<Rightarrow> string \<Rightarrow> trace option \<Rightarrow> reason + trace" where
  "getNextTrace maxDepth action tr =
     (case tr of
        None \<Rightarrow> Inr (Map.empty(action \<mapsto> Count 1))
      | Some t \<Rightarrow>
          (case t action of
             Some (Count traceCount) \<Rightarrow>
               if traceCount \<noteq> 0 then
                 (if traceCount > maxDepth then Inl (MaxCircularDepth traceCount action)
                  else Inr (t(action \<mapsto> Count (traceCount + 1))))
               else Inr (t(action \<mapsto> Count 1))
           | Some NonNumeral \<Rightarrow> Inr (t(action \<mapsto> NonNumeral))
           | None \<Rightarrow>
               if action \<in> set object_prototype_names then
                 (if action = ''__proto__'' then Inr t else Inr (t(action \<mapsto> NonNumeral)))
               else Inr (t(action \<mapsto> Count 1))))"

section \<open>Promises\<close>

text \<open>\<^verbatim>\<open>resolve\<close> and \<^verbatim>\<open>reject\<close> of a promise: the first call settles it, later calls
  do nothing.\<close>

definition settle :: "nat \<Rightarrow> outcome \<Rightarrow> engine \<Rightarrow> engine" where
  "settle p out e =
     (if p < length (promises e) \<and> promises e ! p = None
      then e\<lparr>promises := (promises e)[p := Some out]\<rparr>
      else e)"

text \<open>
  \<^verbatim>\<open>new Promise(executor)\<close>: a pending promise is created and the executor runs at once;
  when the executor throws, the constructor catches the error and rejects the promise.
  (The one executor of this program throws before it has changed anything.)
\<close>

definition new_Promise :: "(nat \<Rightarrow> engine \<Rightarrow> reason + engine) \<Rightarrow> engine \<Rightarrow> nat \<times> engine" where
  "new_Promise executor e =
     (let p = length (promises e);
          e1 = e\<lparr>promises := promises e @ [None]\<rparr>
      in case executor p e1 of
           Inl err \<Rightarrow> (p, settle p (Rejects err) e1)
         | Inr e2 \<Rightarrow> (p, e2))"

text \<open>\<^verbatim>\<open>Promise.resolve(undefined)\<close>.\<close>

definition Promise_resolve :: "jsval \<Rightarrow> engine \<Rightarrow> nat \<times> engine" where
  "Promise_resolve v e = (length (promises e), e\<lparr>promises := promises e @ [Some (Resolves v)]\<rparr>)"

section \<open>The event target\<close>

text \<open>\<^verbatim>\<open>addEventListener\<close> ignores a callback that is already attached for the type;
  \<^verbatim>\<open>removeEventListener\<close> detaches it.\<close>

definition addEventListener :: "string \<Rightarrow> listener \<Rightarrow> event_target \<Rightarrow> event_target" where
  "addEventListener action l t =
     (if lid l \<in> set (map lid (t action)) then t else t(action := t action @ [l]))"

definition removeEventListener :: "string \<Rightarrow> listener \<Rightarrow> event_target \<Rightarrow> event_target" where
  "removeEventListener action l t = t(action := filter (\<lambda>x. lid x \<noteq> lid l) (t action))"

text \<open>
  Calling a listener with the event starts its \<^verbatim>\<open>async function\<close>, which calls
  \<^verbatim>\<open>effect(stateRef.current, dispatchTrace(trace))\<close>: the effect's body is fixed by the
  state snapshot read at this moment.
\<close>

definition call_listener :: "listener \<Rightarrow> nat \<Rightarrow> nat \<Rightarrow> engine \<Rightarrow> engine" where
  "call_listener l p tr e =
     e\<lparr>running := running e @ [\<lparr>body = effect_of l (stateRef e), settles = p, trace_of = tr\<rparr>]\<rparr>"

text \<open>\<^verbatim>\<open>target.current?.dispatchEvent(new CustomEvent(action, {detail}))\<close>: the listeners
  attached for the action are called in the order they were attached.\<close>

definition dispatchEvent :: "string \<Rightarrow> nat \<Rightarrow> nat \<Rightarrow> engine \<Rightarrow> engine" where
  "dispatchEvent action p tr e =
     (case target e of
        None \<Rightarrow> e
      | Some t \<Rightarrow> foldl (\<lambda>e' l. call_listener l p tr e') e (t action))"

section \<open>Dispatch\<close>

definition dispatchTrace :: "nat option \<Rightarrow> string \<Rightarrow> engine \<Rightarrow> nat \<times> engine" where
  "dispatchTrace previousTrace action e =
     (case target e of
        Some t \<Rightarrow>
          new_Promise
            (\<lambda>p e1.
               case getNextTrace (maxTraceDepth e1) action
                      (map_option (\<lambda>i. traces e1 ! i) previousTrace) of
                 Inl err \<Rightarrow> Inl err
               | Inr tr \<Rightarrow>
                   (case previousTrace of
                      None \<Rightarrow>
                        Inr (dispatchEvent action p (length (traces e1))
                               (e1\<lparr>traces := traces e1 @ [tr]\<rparr>))
                    | Some i \<Rightarrow>
                        Inr (dispatchEvent action p i
                               (e1\<lparr>traces := (traces e1)[i := tr]\<rparr>))))
            e
      | None \<Rightarrow> Promise_resolve JUndefined e)"

definition dispatch :: "string \<Rightarrow> engine \<Rightarrow> nat \<times> engine" where
  "dispatch action e = dispatchTrace None action e"

section \<open>Listeners\<close>

text \<open>
  \<^verbatim>\<open>getListener(effect)\<close> evaluates the arrow function \<^verbatim>\<open>(event) => {...}\<close>, which makes a
  new function object at every call, also for the same effect (only \<^verbatim>\<open>getListener\<close> itself
  is memoised by \<^verbatim>\<open>useCallback\<close>).
\<close>

definition getListener :: "effect \<Rightarrow> engine \<Rightarrow> listener \<times> engine" where
  "getListener eff e = (\<lparr>lid = next_lid e, effect_of = eff\<rparr>, e\<lparr>next_lid := Suc (next_lid e)\<rparr>)"

text \<open>
  The part of the listener's \<^verbatim>\<open>async function\<close> that runs next for the \<open>i\<close>-th unfinished
  run. When the effect's body has come to its result:
  \<^verbatim>\<open>
  if (newState) { stateRef.current = newState; setState(newState); resolve(newState); }
  else { resolve(); }            // and: catch (error) { reject(error); }
  \<close>
  Otherwise the body makes its next nested dispatch with the trace of the event, or
  awaits a promise (and stays where it is while the promise is pending).
  \<^verbatim>\<open>setState\<close> changes the state that the component observes only while the component
  is mounted.
\<close>

definition setState :: "jsval \<Rightarrow> engine \<Rightarrow> engine" where
  "setState v e = (if mounted e then e\<lparr>state := v\<rparr> else e)"

definition drop_running :: "nat \<Rightarrow> engine \<Rightarrow> engine" where
  "drop_running i e = e\<lparr>running := take i (running e) @ drop (Suc i) (running e)\<rparr>"

definition resume :: "nat \<Rightarrow> engine \<Rightarrow> engine" where
  "resume i e =
     (if length (running e) \<le> i then e
      else
        (let inv = running e ! i in
         case body inv of
           Return newState \<Rightarrow>
             (if truthy newState
              then settle (settles inv) (Resolves newState)
                     (setState newState ((drop_running i e)\<lparr>stateRef := newState\<rparr>))
              else settle (settles inv) (Resolves JUndefined) (drop_running i e))
         | Throw err \<Rightarrow> settle (settles inv) (Rejects err) (drop_running i e)
         | Call action k \<Rightarrow>
             (case dispatchTrace (Some (trace_of inv)) action e of
                (q, e1) \<Rightarrow> e1\<lparr>running := (running e1)[i := inv\<lparr>body := k q\<rparr>]\<rparr>)
         | Await q k \<Rightarrow>
             (if q < length (promises e) then
                (case promises e ! q of
                   None \<Rightarrow> e
                 | Some out \<Rightarrow> e\<lparr>running := (running e)[i := inv\<lparr>body := k out\<rparr>]\<rparr>)
              else e)))"

section \<open>Registration and teardown\<close>

text \<open>
  \<^verbatim>\<open>allEffectsArray.current[action]\<close> is the array kept for the action, or an inherited
  member of \<^verbatim>\<open>Object.prototype\<close> when the action bears such a name and nothing is kept for
  it: that member is truthy and has no method \<^verbatim>\<open>includes\<close>, so \<^verbatim>\<open>handlers.includes(listener)\<close>
  throws a \<^verbatim>\<open>TypeError\<close> before anything is stored or attached.
\<close>

definition addEffect :: "string \<Rightarrow> effect \<Rightarrow> engine \<Rightarrow> reason + engine" where
  "addEffect action eff e =
     (case getListener eff e of
        (listener, e1) \<Rightarrow>
          (case map_of (allEffectsArray e1) action of
             Some hs \<Rightarrow>
               (let e2 =
                  (if lid listener \<notin> set (map lid hs)
                   then e1\<lparr>allEffectsArray :=
                            AList.update action (hs @ [listener]) (allEffectsArray e1)\<rparr>
                   else e1\<lparr>allEffectsArray :=
                            AList.update action [listener] (allEffectsArray e1)\<rparr>)
                in Inr (e2\<lparr>target := map_option (addEventListener action listener) (target e2)\<rparr>))
           | None \<Rightarrow>
               if action \<in> set object_prototype_names then Inl TypeError
               else
                 (let e2 = e1\<lparr>allEffectsArray :=
                              AList.update action [listener] (allEffectsArray e1)\<rparr>
                  in Inr (e2\<lparr>target :=
                            map_option (addEventListener action listener) (target e2)\<rparr>))))"

text \<open>The engine after a call of \<open>addEffect\<close>: when the call throws, the engine is as it
  was before the call.\<close>

definition added :: "string \<Rightarrow> effect \<Rightarrow> engine \<Rightarrow> engine" where
  "added action eff e = (case addEffect action eff e of Inl err \<Rightarrow> e | Inr e' \<Rightarrow> e')"

text \<open>The two nested \<^verbatim>\<open>for\<close> loops of \<^verbatim>\<open>cleanup\<close>, over the actions of
  \<^verbatim>\<open>allEffectsArray.current\<close> and over the listeners kept for each.\<close>

definition detach_listeners :: "engine \<Rightarrow> engine" where
  "detach_listeners e =
     foldl
       (\<lambda>e1 (action, listeners).
          foldl
            (\<lambda>e2 l. e2\<lparr>target := map_option (removeEventListener action l) (target e2)\<rparr>)
            e1 listeners)
       e (allEffectsArray e)"

definition cleanup :: "engine \<Rightarrow> engine" where
  "cleanup e = (detach_listeners e)\<lparr>target := None\<rparr>"

section \<open>The hook\<close>

text \<open>
  The loop of the mount effect, \<^verbatim>\<open>for (const action in initialEffects) addEffect(action,
  effect)\<close>, over the keys of the record in their order. It ends at the first \<open>addEffect\<close>
  that throws, with that error.
\<close>

fun mount_effect :: "(string \<times> effect) list \<Rightarrow> engine \<Rightarrow> reason option \<times> engine" where
  "mount_effect [] e = (None, e)"
| "mount_effect ((action, eff) # rest) e =
     (case addEffect action eff e of
        Inl err \<Rightarrow> (Some err, e)
      | Inr e1 \<Rightarrow> mount_effect rest e1)"

text \<open>
  The engine after the first render and its mount effect: the refs hold their initial
  values and the initial effects have been registered with \<open>addEffect\<close>. When the mount
  effect throws, React unmounts the component; \<open>cleanup\<close> does not run then, since the
  effect has not returned it, so the event target stays.
\<close>

definition useEffectState ::
  "jsval \<Rightarrow> (string \<times> effect) list option \<Rightarrow> EffectStateOptions option \<Rightarrow> engine" where
  "useEffectState initialState initialEffects options =
     (let e0 =
        \<lparr>stateRef = initialState, state = initialState, mounted = True,
         target = Some (\<lambda>a. []), allEffectsArray = [],
         maxTraceDepth = initMaxTraceDepth options, next_lid = 0,
         promises = [], traces = [], running = []\<rparr>
      in case initialEffects of
           None \<Rightarrow> e0
         | Some effs \<Rightarrow>
             (case mount_effect effs e0 of
                (None, e1) \<Rightarrow> e1
              | (Some err, e1) \<Rightarrow> e1\<lparr>mounted := False\<rparr>))"

text \<open>
  What can happen to an engine: \<^verbatim>\<open>dispatch\<close> or \<^verbatim>\<open>addEffect\<close> is called from outside,
  React unmounts the component (running \<open>cleanup\<close>), or the event loop runs the next
  part of some unfinished listener run. A history is a list of such events; every order
  in which the event loop may take up the listener runs is among the histories.
\<close>

datatype event =
    Dispatch string
  | AddEffect string effect
  | Unmount
  | Resume nat

fun happen :: "engine \<Rightarrow> event \<Rightarrow> engine" where
  "happen e (Dispatch action) = snd (dispatch action e)"
| "happen e (AddEffect action eff) = added action eff e"
| "happen e Unmount = (cleanup e)\<lparr>mounted := False\<rparr>"
| "happen e (Resume i) = resume i e"

definition history :: "engine \<Rightarrow> event list \<Rightarrow> engine" where
  "history e evs = foldl happen e evs"

section \<open>Effects of the test suite and of the examples\<close>

text \<open>\<^verbatim>\<open>effectA\<close> and \<^verbatim>\<open>effectB\<close> of \<^verbatim>\<open>useEffectState.spec.ts\<close>:
  \<^verbatim>\<open>(state) => ({ ...state, a: 1 })\<close> and \<^verbatim>\<open>(state) => ({ ...state, b: 2 })\<close>.\<close>

definition effectA :: effect where
  "effectA st = Return (spread_set st ''a'' (JNum 1))"

definition effectB :: effect where
  "effectB st = Return (spread_set st ''b'' (JNum 2))"

text \<open>A side effect that dispatches an action from inside a handler and returns nothing:
  \<^verbatim>\<open>async (state, dispatch) => { await dispatch(action); }\<close>.\<close>

definition dispatch_again :: "string \<Rightarrow> effect" where
  "dispatch_again action st = await_dispatch action (\<lambda>v. Return JUndefined)"

text \<open>A side effect that dispatches an action twice, one dispatch after the other:
  \<^verbatim>\<open>async (state, dispatch) => { await dispatch(action); await dispatch(action); }\<close>.\<close>

definition dispatch_twice :: "string \<Rightarrow> effect" where
  "dispatch_twice action st =
     await_dispatch action (\<lambda>v. await_dispatch action (\<lambda>w. Return JUndefined))"

text \<open>A side effect that dispatches an action three times without awaiting the promises:
  \<^verbatim>\<open>(state, dispatch) => { dispatch(action); dispatch(action); dispatch(action); }\<close>.\<close>

definition dispatch_thrice :: "string \<Rightarrow> effect" where
  "dispatch_thrice action st =
     Call action (\<lambda>p. Call action (\<lambda>q. Call action (\<lambda>r. Return JUndefined)))"

text \<open>A side effect that returns nothing: \<^verbatim>\<open>(state) => {}\<close>.\<close>

definition side_effect :: effect where
  "side_effect st = Return JUndefined"

text \<open>An effect on a numeric state that returns zero: \<^verbatim>\<open>(state) => 0\<close>.\<close>

definition effect_zero :: effect where
  "effect_zero st = Return (JNum 0)"

section \<open>What a history returns\<close>

text \<open>
  The value an effect handler hands back at an event: resuming a listener run whose
  effect body has come to \<open>Return v\<close> yields \<open>v\<close>; no other event is the return of a
  handler. \<open>returned_values\<close> collects these values along a history.
\<close>

fun returned_by :: "engine \<Rightarrow> event \<Rightarrow> jsval option" where
  "returned_by e (Resume i) =
     (if i < length (running e) then
        (case body (running e ! i) of Return v \<Rightarrow> Some v | _ \<Rightarrow> None)
      else None)"
| "returned_by e ev = None"

fun returned_values :: "engine \<Rightarrow> event list \<Rightarrow> jsval list" where
  "returned_values e [] = []"
| "returned_values e (ev # evs) =
     (case returned_by e ev of None \<Rightarrow> [] | Some v \<Rightarrow> [v]) @ returned_values (happen e ev) evs"

section \<open>Counting the dispatches of a chain\<close>



text \<open>The count of an action after \<open>getNextTrace\<close>, from the count before it, and what the
  trace holds for the action after \<open>getNextTrace\<close>, whether it has thrown or not.\<close>

definition bump :: "int \<Rightarrow> int \<Rightarrow> int" where
  "bump m c = (if c \<noteq> 0 then (if c > m then c else c + 1) else 1)"

definition counted :: "int \<Rightarrow> string \<Rightarrow> tentry option \<Rightarrow> tentry option" where
  "counted m action entry =
     (case entry of
        Some (Count c) \<Rightarrow> Some (Count (bump m c))
      | Some NonNumeral \<Rightarrow> Some NonNumeral
      | None \<Rightarrow>
          if action \<in> set object_prototype_names then
            (if action = ''__proto__'' then None else Some NonNumeral)
          else Some (Count 1))"

section \<open>Invariants of the engine\<close>

text \<open>Every unfinished listener run refers to a promise and to a trace object that exist.\<close>

definition heap_ok :: "engine \<Rightarrow> bool" where
  "heap_ok e \<longleftrightarrow>
     list_all (\<lambda>r. settles r < length (promises e) \<and> trace_of r < length (traces e))
       (running e)"

text \<open>The listeners kept in \<^verbatim>\<open>allEffectsArray\<close> were all created earlier, and every listener
  attached to the event target is kept in \<^verbatim>\<open>allEffectsArray\<close> under its action.\<close>

definition registry_ok :: "engine \<Rightarrow> bool" where
  "registry_ok e \<longleftrightarrow>
     (\<forall>action ls l. (action, ls) \<in> set (allEffectsArray e) \<longrightarrow> l \<in> set ls \<longrightarrow>
        lid l < next_lid e) \<and>
     (\<forall>t action x. target e = Some t \<longrightarrow> x \<in> set (t action) \<longrightarrow>
        (\<exists>ls. map_of (allEffectsArray e) action = Some ls \<and> lid x \<in> lid ` set ls))"

text \<open>A pending promise whose \<^verbatim>\<open>resolve\<close>/\<^verbatim>\<open>reject\<close> pair no listener run holds.\<close>

definition orphan :: "nat \<Rightarrow> engine \<Rightarrow> bool" where
  "orphan p e \<longleftrightarrow>
     p < length (promises e) \<and> promises e ! p = None \<and> p \<notin> set (map settles (running e))"


section \<open>Basic facts about the operations\<close>

lemma foldl_call_listener:
  "foldl (\<lambda>e' l. call_listener l p tr e') e ls =
     e\<lparr>running := running e @ map (\<lambda>l. \<lparr>body = effect_of l (stateRef e), settles = p, trace_of = tr\<rparr>) ls\<rparr>"
  by (induction ls arbitrary: e) (simp_all add: call_listener_def)

lemma dispatchEvent_attached:
  "target e = Some t \<Longrightarrow>
   dispatchEvent action p tr e =
     e\<lparr>running := running e @
        map (\<lambda>l. \<lparr>body = effect_of l (stateRef e), settles = p, trace_of = tr\<rparr>) (t action)\<rparr>"
  by (simp add: dispatchEvent_def foldl_call_listener)

lemma dispatchTrace_torn_down:
  "target e = None \<Longrightarrow>
   dispatchTrace prev action e =
     (length (promises e), e\<lparr>promises := promises e @ [Some (Resolves JUndefined)]\<rparr>)"
  by (simp add: dispatchTrace_def Promise_resolve_def)

lemma dispatchTrace_guard_trips:
  "target e = Some t \<Longrightarrow>
   getNextTrace (maxTraceDepth e) action (map_option (\<lambda>i. traces e ! i) prev) = Inl err \<Longrightarrow>
   dispatchTrace prev action e =
     (length (promises e), e\<lparr>promises := promises e @ [Some (Rejects err)]\<rparr>)"
  by (simp add: dispatchTrace_def new_Promise_def settle_def)

lemma dispatchTrace_top_level:
  "target e = Some t \<Longrightarrow>
   dispatchTrace None action e =
     (length (promises e),
      e\<lparr>promises := promises e @ [None],
        traces := traces e @ [Map.empty(action \<mapsto> Count 1)],
        running := running e @
          map (\<lambda>l. \<lparr>body = effect_of l (stateRef e), settles = length (promises e),
                     trace_of = length (traces e)\<rparr>) (t action)\<rparr>)"
  by (simp add: dispatchTrace_def new_Promise_def getNextTrace_def dispatchEvent_attached Let_def)

lemma dispatchTrace_nested_accepted:
  "target e = Some t \<Longrightarrow>
   getNextTrace (maxTraceDepth e) action (Some (traces e ! i)) = Inr tr \<Longrightarrow>
   dispatchTrace (Some i) action e =
     (length (promises e),
      e\<lparr>promises := promises e @ [None],
        traces := (traces e)[i := tr],
        running := running e @
          map (\<lambda>l. \<lparr>body = effect_of l (stateRef e), settles = length (promises e),
                     trace_of = i\<rparr>) (t action)\<rparr>)"
  by (simp add: dispatchTrace_def new_Promise_def dispatchEvent_attached Let_def)

lemma settle_eq:
  "settle p out e =
     e\<lparr>promises := (if p < length (promises e) \<and> promises e ! p = None
                      then (promises e)[p := Some out] else promises e)\<rparr>"
  by (simp add: settle_def)

lemma setState_eq: "setState v e = e\<lparr>state := (if mounted e then v else state e)\<rparr>"
  by (simp add: setState_def)

lemma dispatchTrace_cases:
  obtains (torn) "target e = None"
      "dispatchTrace prev action e =
         (length (promises e), e\<lparr>promises := promises e @ [Some (Resolves JUndefined)]\<rparr>)"
  | (tripped) t err where "target e = Some t"
      "getNextTrace (maxTraceDepth e) action (map_option (\<lambda>i. traces e ! i) prev) = Inl err"
      "dispatchTrace prev action e =
         (length (promises e), e\<lparr>promises := promises e @ [Some (Rejects err)]\<rparr>)"
  | (top) t where "target e = Some t" "prev = None"
      "dispatchTrace prev action e =
         (length (promises e),
          e\<lparr>promises := promises e @ [None],
            traces := traces e @ [Map.empty(action \<mapsto> Count 1)],
            running := running e @
              map (\<lambda>l. \<lparr>body = effect_of l (stateRef e), settles = length (promises e),
                         trace_of = length (traces e)\<rparr>) (t action)\<rparr>)"
  | (nested) t i tr where "target e = Some t" "prev = Some i"
      "getNextTrace (maxTraceDepth e) action (Some (traces e ! i)) = Inr tr"
      "dispatchTrace prev action e =
         (length (promises e),
          e\<lparr>promises := promises e @ [None],
            traces := (traces e)[i := tr],
            running := running e @
              map (\<lambda>l. \<lparr>body = effect_of l (stateRef e), settles = length (promises e),
                         trace_of = i\<rparr>) (t action)\<rparr>)"
proof (cases "target e")
  case None
  then show ?thesis using torn dispatchTrace_torn_down by blast
next
  case (Some t)
  show ?thesis
  proof (cases "getNextTrace (maxTraceDepth e) action (map_option (\<lambda>i. traces e ! i) prev)")
    case (Inl err)
    then show ?thesis using tripped Some dispatchTrace_guard_trips by blast
  next
    case (Inr tr)
    show ?thesis
    proof (cases prev)
      case None
      then show ?thesis using top Some dispatchTrace_top_level by blast
    next
      case (Some i)
      with Inr \<open>target e = Some t\<close> show ?thesis
        using nested dispatchTrace_nested_accepted by simp
    qed
  qed
qed

lemma dispatchTrace_frame:
  "target (snd (dispatchTrace prev action e)) = target e"
  "stateRef (snd (dispatchTrace prev action e)) = stateRef e"
  "state (snd (dispatchTrace prev action e)) = state e"
  "mounted (snd (dispatchTrace prev action e)) = mounted e"
  "allEffectsArray (snd (dispatchTrace prev action e)) = allEffectsArray e"
  "maxTraceDepth (snd (dispatchTrace prev action e)) = maxTraceDepth e"
  "next_lid (snd (dispatchTrace prev action e)) = next_lid e"
  by (cases prev action e rule: dispatchTrace_cases; simp)+

lemma dispatchTrace_fst: "fst (dispatchTrace prev action e) = length (promises e)"
  by (cases prev action e rule: dispatchTrace_cases; simp)

lemma resume_frame:
  "target (resume i e) = target e"
  "mounted (resume i e) = mounted e"
  "allEffectsArray (resume i e) = allEffectsArray e"
  "maxTraceDepth (resume i e) = maxTraceDepth e"
  "next_lid (resume i e) = next_lid e"
  by (simp_all add: resume_def settle_eq setState_eq drop_running_def Let_def dispatchTrace_frame
      case_prod_unfold split: prog.splits option.splits)

subsection \<open>Teardown and registration leave the rest alone\<close>

lemma foldl_remove_frame:
  "foldl (\<lambda>e2 l. e2\<lparr>target := map_option (removeEventListener action l) (target e2)\<rparr>) e ls =
     e\<lparr>target := map_option (\<lambda>t. foldl (\<lambda>t' l. removeEventListener action l t') t ls) (target e)\<rparr>"
proof (induction ls arbitrary: e)
  case Nil
  show ?case by (cases "target e") simp_all
next
  case (Cons l ls)
  show ?case by (cases "target e") (simp_all add: Cons)
qed

lemma foldl_target_frame:
  "foldl (\<lambda>e1 (action, listeners). e1\<lparr>target := map_option (F action listeners) (target e1)\<rparr>) e reg =
     e\<lparr>target := map_option
        (\<lambda>t. foldl (\<lambda>t1 (action, listeners). F action listeners t1) t reg) (target e)\<rparr>"
proof (induction reg arbitrary: e)
  case Nil
  show ?case by (cases "target e") simp_all
next
  case (Cons entry reg)
  show ?case
    by (cases entry; cases "target e") (simp_all add: Cons)
qed

lemma detach_listeners_eq:
  "detach_listeners e =
     e\<lparr>target := map_option
        (\<lambda>t. foldl (\<lambda>t1 (action, listeners).
                foldl (\<lambda>t' l. removeEventListener action l t') t1 listeners) t (allEffectsArray e))
        (target e)\<rparr>"
  by (simp add: detach_listeners_def foldl_remove_frame foldl_target_frame)

lemma cleanup_eq: "cleanup e = e\<lparr>target := None\<rparr>"
  by (simp add: cleanup_def detach_listeners_eq)

lemma added_frame:
  "stateRef (added action eff e) = stateRef e"
  "state (added action eff e) = state e"
  "mounted (added action eff e) = mounted e"
  "maxTraceDepth (added action eff e) = maxTraceDepth e"
  "promises (added action eff e) = promises e"
  "traces (added action eff e) = traces e"
  "running (added action eff e) = running e"
  by (simp_all add: added_def addEffect_def getListener_def Let_def split: option.splits)

lemma addEffect_Inr: "addEffect action eff e = Inr e' \<Longrightarrow> e' = added action eff e"
  by (simp add: added_def)

lemma addEffect_Inl: "addEffect action eff e = Inl err \<Longrightarrow> added action eff e = e"
  by (simp add: added_def)

lemma added_target_None: "target e = None \<Longrightarrow> target (added action eff e) = None"
  by (simp add: added_def addEffect_def getListener_def Let_def split: option.splits)

lemma happen_target_None: "target e = None \<Longrightarrow> target (happen e ev) = None"
  by (cases ev) (simp_all add: dispatch_def dispatchTrace_frame added_target_None cleanup_eq resume_frame)

lemma history_target_None: "target e = None \<Longrightarrow> target (history e evs) = None"
  unfolding history_def by (induction evs arbitrary: e) (simp_all add: happen_target_None)



subsection \<open>The invariants hold along every history\<close>

lemma heap_okD:
  "heap_ok e \<Longrightarrow> r \<in> set (running e) \<Longrightarrow>
     settles r < length (promises e) \<and> trace_of r < length (traces e)"
  by (simp add: heap_ok_def list_all_iff)

lemma heap_ok_dispatchTrace:
  assumes "heap_ok e" and "case prev of None \<Rightarrow> True | Some i \<Rightarrow> i < length (traces e)"
  shows "heap_ok (snd (dispatchTrace prev action e))"
  using assms
  by (cases prev action e rule: dispatchTrace_cases)
     (auto simp: heap_ok_def list_all_iff less_Suc_eq)

lemma set_drop_running: "set (running (drop_running i e)) \<subseteq> set (running e)"
  by (auto simp: drop_running_def dest: in_set_takeD in_set_dropD)

lemma heap_ok_resume:
  assumes "heap_ok e"
  shows "heap_ok (resume i e)"
proof (cases "i < length (running e)")
  case False
  then show ?thesis using assms by (simp add: resume_def)
next
  case True
  let ?inv = "running e ! i"
  have r: "settles ?inv < length (promises e)" "trace_of ?inv < length (traces e)"
    using heap_okD [OF assms, of ?inv] True by simp_all
  have dropped: "heap_ok (drop_running i e)"
    using assms set_drop_running [of i e]
    by (auto simp: heap_ok_def list_all_iff drop_running_def dest: in_set_takeD in_set_dropD)
  show ?thesis
  proof (cases "body ?inv")
    case (Return v)
    then show ?thesis using True dropped
      by (simp add: resume_def Let_def settle_eq setState_eq heap_ok_def)
  next
    case (Throw r)
    then show ?thesis using True dropped
      by (simp add: resume_def Let_def settle_eq setState_eq heap_ok_def)
  next
    case (Call action k)
    have ok1: "heap_ok (snd (dispatchTrace (Some (trace_of ?inv)) action e))"
      using assms r by (intro heap_ok_dispatchTrace) simp_all
    have "heap_ok ((snd (dispatchTrace (Some (trace_of ?inv)) action e))
            \<lparr>running := (running (snd (dispatchTrace (Some (trace_of ?inv)) action e)))
               [i := ?inv\<lparr>body := k (fst (dispatchTrace (Some (trace_of ?inv)) action e))\<rparr>]\<rparr>)"
      using ok1 r
      by (cases "Some (trace_of ?inv)" action e rule: dispatchTrace_cases)
         (auto simp: heap_ok_def list_all_iff less_Suc_eq dest!: set_update_subset_insert [THEN subsetD])
    then show ?thesis using True Call
      by (simp add: resume_def Let_def case_prod_unfold)
  next
    case (Await q k)
    have "heap_ok (e\<lparr>running := (running e)[i := ?inv\<lparr>body := k out\<rparr>]\<rparr>)" for out
      using assms r
      by (auto simp: heap_ok_def list_all_iff dest!: set_update_subset_insert [THEN subsetD])
    then show ?thesis using True Await assms
      by (simp add: resume_def Let_def split: option.splits)
  qed
qed

lemma set_alist_update: "set (AList.update k v al) \<subseteq> insert (k, v) (set al)"
  by (induction al) auto

lemma registry_ok_frame:
  "allEffectsArray e' = allEffectsArray e \<Longrightarrow> next_lid e' = next_lid e \<Longrightarrow>
   target e' = target e \<Longrightarrow> registry_ok e' = registry_ok e"
  by (simp add: registry_ok_def)

lemma registry_okD1:
  "registry_ok e \<Longrightarrow> (action, ls) \<in> set (allEffectsArray e) \<Longrightarrow> l \<in> set ls \<Longrightarrow>
     lid l < next_lid e"
  unfolding registry_ok_def by blast

lemma registry_okD2:
  "registry_ok e \<Longrightarrow> target e = Some t \<Longrightarrow> x \<in> set (t action) \<Longrightarrow>
     \<exists>ls. map_of (allEffectsArray e) action = Some ls \<and> lid x \<in> lid ` set ls"
  unfolding registry_ok_def by blast

lemma registry_ok_fresh:
  assumes "registry_ok e"
  shows "map_of (allEffectsArray e) action = Some hs \<Longrightarrow> next_lid e \<notin> lid ` set hs"
    and "target e = Some t \<Longrightarrow> next_lid e \<notin> lid ` set (t action)"
proof -
  show 1: "next_lid e \<notin> lid ` set hs" if "map_of (allEffectsArray e) action = Some hs" for hs
    using registry_okD1 [OF assms map_of_SomeD [OF that]] by fastforce
  show "next_lid e \<notin> lid ` set (t action)" if t: "target e = Some t"
  proof
    assume "next_lid e \<in> lid ` set (t action)"
    then obtain x where x: "x \<in> set (t action)" "lid x = next_lid e" by auto
    from registry_okD2 [OF assms t x(1)] obtain ls where
      "map_of (allEffectsArray e) action = Some ls" "lid x \<in> lid ` set ls"
      by blast
    with 1 x(2) show False by metis
  qed
qed

lemma addEffect_registered:
  assumes "registry_ok e"
    and "action \<notin> set object_prototype_names \<or> map_of (allEffectsArray e) action \<noteq> None"
  shows "addEffect action eff e =
     Inr (e\<lparr>next_lid := Suc (next_lid e),
       allEffectsArray :=
         AList.update action
           ((case map_of (allEffectsArray e) action of None \<Rightarrow> [] | Some hs \<Rightarrow> hs) @
            [\<lparr>lid = next_lid e, effect_of = eff\<rparr>])
           (allEffectsArray e),
       target :=
         map_option (\<lambda>t. t(action := t action @ [\<lparr>lid = next_lid e, effect_of = eff\<rparr>]))
           (target e)\<rparr>)"
proof (cases "target e")
  case None
  then show ?thesis
    using registry_ok_fresh(1) [OF assms(1), of action] assms(2)
    by (auto simp: addEffect_def getListener_def Let_def split: option.splits)
next
  case (Some t)
  then show ?thesis
    using registry_ok_fresh(1) [OF assms(1), of action]
      registry_ok_fresh(2) [OF assms(1) Some, of action] assms(2)
    by (auto simp: addEffect_def getListener_def Let_def addEventListener_def split: option.splits)
qed

lemma added_registered:
  assumes "registry_ok e"
    and "action \<notin> set object_prototype_names \<or> map_of (allEffectsArray e) action \<noteq> None"
  shows "added action eff e =
     e\<lparr>next_lid := Suc (next_lid e),
       allEffectsArray :=
         AList.update action
           ((case map_of (allEffectsArray e) action of None \<Rightarrow> [] | Some hs \<Rightarrow> hs) @
            [\<lparr>lid = next_lid e, effect_of = eff\<rparr>])
           (allEffectsArray e),
       target :=
         map_option (\<lambda>t. t(action := t action @ [\<lparr>lid = next_lid e, effect_of = eff\<rparr>]))
           (target e)\<rparr>"
  by (simp add: added_def addEffect_registered [OF assms])

lemma addEffect_throws:
  "action \<in> set object_prototype_names \<Longrightarrow> map_of (allEffectsArray e) action = None \<Longrightarrow>
   addEffect action eff e = Inl TypeError"
  by (simp add: addEffect_def getListener_def)

lemma added_cases:
  assumes "registry_ok e"
  shows "action \<in> set object_prototype_names \<and> added action eff e = e \<or>
     added action eff e =
       e\<lparr>next_lid := Suc (next_lid e),
         allEffectsArray :=
           AList.update action
             ((case map_of (allEffectsArray e) action of None \<Rightarrow> [] | Some hs \<Rightarrow> hs) @
              [\<lparr>lid = next_lid e, effect_of = eff\<rparr>])
             (allEffectsArray e),
         target :=
           map_option (\<lambda>t. t(action := t action @ [\<lparr>lid = next_lid e, effect_of = eff\<rparr>]))
             (target e)\<rparr>"
proof (cases "action \<in> set object_prototype_names \<and> map_of (allEffectsArray e) action = None")
  case True
  then show ?thesis using addEffect_throws [of action e eff] by (simp add: added_def)
next
  case False
  then have "action \<notin> set object_prototype_names \<or> map_of (allEffectsArray e) action \<noteq> None"
    by auto
  from addEffect_registered [OF assms this, of eff] show ?thesis
    by (simp add: added_def)
qed

lemma registry_ok_added:
  assumes "registry_ok e"
  shows "registry_ok (added action eff e)"
proof -
  consider (threw) "added action eff e = e"
    | (registered) "added action eff e =
       e\<lparr>next_lid := Suc (next_lid e),
         allEffectsArray :=
           AList.update action
             ((case map_of (allEffectsArray e) action of None \<Rightarrow> [] | Some hs \<Rightarrow> hs) @
              [\<lparr>lid = next_lid e, effect_of = eff\<rparr>])
             (allEffectsArray e),
         target :=
           map_option (\<lambda>t. t(action := t action @ [\<lparr>lid = next_lid e, effect_of = eff\<rparr>]))
             (target e)\<rparr>"
    using added_cases [OF assms, of action eff] by blast
  then show ?thesis
  proof cases
  case threw
  then show ?thesis using assms by simp
next
  case registered
  let ?l = "\<lparr>lid = next_lid e, effect_of = eff\<rparr>"
  let ?hs = "(case map_of (allEffectsArray e) action of None \<Rightarrow> [] | Some hs \<Rightarrow> hs) @ [?l]"
  let ?e' = "added action eff e"
  have reg: "allEffectsArray ?e' = AList.update action ?hs (allEffectsArray e)"
    and nxt: "next_lid ?e' = Suc (next_lid e)"
    and tgt: "target ?e' = map_option (\<lambda>t. t(action := t action @ [?l])) (target e)"
    by (simp_all add: registered)
  have old: "lid l < next_lid e"
    if "map_of (allEffectsArray e) action = Some hs" "l \<in> set hs" for hs l
    using registry_okD1 [OF assms map_of_SomeD [OF that(1)] that(2)] .
  have created: "lid l < next_lid ?e'"
    if "(a, ls) \<in> set (allEffectsArray ?e')" "l \<in> set ls" for a ls l
  proof -
    have "(a, ls) = (action, ?hs) \<or> (a, ls) \<in> set (allEffectsArray e)"
      using that(1) set_alist_update [of action ?hs "allEffectsArray e"] by (auto simp: reg)
    then show ?thesis
      using that(2) old registry_okD1 [OF assms]
      by (auto simp: nxt less_Suc_eq split: option.splits)
  qed
  have kept: "\<exists>ls. map_of (allEffectsArray ?e') a = Some ls \<and> lid x \<in> lid ` set ls"
    if attached: "target ?e' = Some t" and x: "x \<in> set (t a)" for t a x
  proof -
    obtain t0 where t0: "target e = Some t0" "t = t0(action := t0 action @ [?l])"
      using attached by (auto simp: tgt)
    show ?thesis
    proof (cases "a = action \<and> x \<notin> set (t0 action)")
      case True
      then have "x = ?l" using x t0(2) by simp
      then show ?thesis using True by (simp add: reg update_conv')
    next
      case False
      then have "x \<in> set (t0 a)" using x t0(2) by (auto split: if_splits)
      then show ?thesis
        using registry_okD2 [OF assms t0(1), of x a] by (auto simp: reg update_conv')
    qed
  qed
  show ?thesis
    unfolding registry_ok_def using created kept by blast
qed
qed

lemma heap_ok_mounted [simp]: "heap_ok (e\<lparr>mounted := b\<rparr>) = heap_ok e"
  by (simp add: heap_ok_def)

lemma registry_ok_mounted [simp]: "registry_ok (e\<lparr>mounted := b\<rparr>) = registry_ok e"
  by (simp add: registry_ok_def)

lemma heap_ok_added: "heap_ok e \<Longrightarrow> heap_ok (added action eff e)"
  by (simp add: heap_ok_def added_frame)

lemma heap_ok_cleanup: "heap_ok e \<Longrightarrow> heap_ok (cleanup e)"
  by (simp add: heap_ok_def cleanup_eq)

lemma heap_ok_happen: "heap_ok e \<Longrightarrow> heap_ok (happen e ev)"
  by (cases ev)
     (simp_all add: dispatch_def heap_ok_dispatchTrace heap_ok_added heap_ok_cleanup
        heap_ok_resume)

lemma registry_ok_cleanup: "registry_ok e \<Longrightarrow> registry_ok (cleanup e)"
  by (simp add: registry_ok_def cleanup_eq)

lemma registry_ok_happen: "registry_ok e \<Longrightarrow> registry_ok (happen e ev)"
proof (cases ev)
  case (Dispatch action)
  assume "registry_ok e"
  then show ?thesis using Dispatch
    by (simp add: dispatch_def registry_ok_frame [of "snd (dispatchTrace None action e)" e]
        dispatchTrace_frame)
next
  case (Resume i)
  assume "registry_ok e"
  then show ?thesis using Resume
    by (simp add: registry_ok_frame [of "resume i e" e] resume_frame)
qed (simp_all add: registry_ok_added registry_ok_cleanup)

lemma heap_ok_history: "heap_ok e \<Longrightarrow> heap_ok (history e evs)"
  unfolding history_def by (induction evs arbitrary: e) (simp_all add: heap_ok_happen)

lemma registry_ok_history: "registry_ok e \<Longrightarrow> registry_ok (history e evs)"
  unfolding history_def by (induction evs arbitrary: e) (simp_all add: registry_ok_happen)

lemma mount_effect_ok:
  "mount_effect effs e = (r, e1) \<Longrightarrow> heap_ok e \<Longrightarrow> registry_ok e \<Longrightarrow>
   heap_ok e1 \<and> registry_ok e1 \<and> maxTraceDepth e1 = maxTraceDepth e \<and> traces e1 = traces e"
proof (induction effs arbitrary: e)
  case Nil
  then show ?case by simp
next
  case (Cons entry effs)
  obtain action eff where entry: "entry = (action, eff)" by (cases entry)
  show ?case
  proof (cases "addEffect action eff e")
    case (Inl err)
    then show ?thesis using Cons.prems entry by simp
  next
    case (Inr e2)
    then have e2: "e2 = added action eff e" by (rule addEffect_Inr)
    have "mount_effect effs e2 = (r, e1)" using Cons.prems(1) entry Inr by simp
    from Cons.IH [OF this] show ?thesis
      using Cons.prems(2,3) by (simp add: e2 heap_ok_added registry_ok_added added_frame)
  qed
qed

lemma useEffectState_ok:
  "heap_ok (useEffectState initialState initialEffects options)"
  "registry_ok (useEffectState initialState initialEffects options)"
  "traces (useEffectState initialState initialEffects options) = []"
  "maxTraceDepth (useEffectState initialState initialEffects options) = initMaxTraceDepth options"
proof -
  define e0 where "e0 =
    \<lparr>stateRef = initialState, state = initialState, mounted = True,
     target = Some (\<lambda>a. []), allEffectsArray = [],
     maxTraceDepth = initMaxTraceDepth options, next_lid = 0,
     promises = [], traces = [], running = []\<rparr>"
  have e0: "heap_ok e0" "registry_ok e0"
    by (simp_all add: e0_def heap_ok_def registry_ok_def)
  have all: "heap_ok (useEffectState initialState initialEffects options) \<and>
      registry_ok (useEffectState initialState initialEffects options) \<and>
      traces (useEffectState initialState initialEffects options) = [] \<and>
      maxTraceDepth (useEffectState initialState initialEffects options) =
        initMaxTraceDepth options"
  proof (cases initialEffects)
    case None
    then have "useEffectState initialState initialEffects options = e0"
      by (simp add: useEffectState_def e0_def)
    then show ?thesis using e0 by (simp add: e0_def)
  next
    case (Some effs)
    obtain r e1 where m: "mount_effect effs e0 = (r, e1)" by (cases "mount_effect effs e0")
    have "useEffectState initialState initialEffects options =
        (case r of None \<Rightarrow> e1 | Some err \<Rightarrow> e1\<lparr>mounted := False\<rparr>)"
      using Some m by (cases r) (simp_all add: useEffectState_def e0_def [symmetric])
    moreover have "heap_ok e1" "registry_ok e1" "maxTraceDepth e1 = maxTraceDepth e0"
      "traces e1 = traces e0"
      using mount_effect_ok [OF m e0] by simp_all
    moreover have "traces e0 = []" "maxTraceDepth e0 = initMaxTraceDepth options"
      by (simp_all add: e0_def)
    ultimately show ?thesis by (cases r) simp_all
  qed
  then show "heap_ok (useEffectState initialState initialEffects options)"
    "registry_ok (useEffectState initialState initialEffects options)"
    "traces (useEffectState initialState initialEffects options) = []"
    "maxTraceDepth (useEffectState initialState initialEffects options) =
       initMaxTraceDepth options"
    by simp_all
qed

lemma reachable_ok:
  "heap_ok (history (useEffectState initialState initialEffects options) evs)"
  "registry_ok (history (useEffectState initialState initialEffects options) evs)"
  by (simp_all add: heap_ok_history registry_ok_history useEffectState_ok)

subsection \<open>A settled promise keeps its outcome\<close>

lemma dispatchTrace_promises:
  "\<exists>x. promises (snd (dispatchTrace prev action e)) = promises e @ [x]"
  by (cases prev action e rule: dispatchTrace_cases) simp_all

lemma settled_happen:
  assumes "p < length (promises e)" and "promises e ! p = Some out"
  shows "p < length (promises (happen e ev)) \<and> promises (happen e ev) ! p = Some out"
proof (cases ev)
  case (Dispatch action)
  obtain x where "promises (snd (dispatchTrace None action e)) = promises e @ [x]"
    using dispatchTrace_promises by blast
  then show ?thesis using assms Dispatch by (simp add: dispatch_def nth_append)
next
  case (AddEffect action eff)
  then show ?thesis using assms by (simp add: added_frame)
next
  case Unmount
  then show ?thesis using assms by (simp add: cleanup_eq)
next
  case (Resume i)
  show ?thesis
  proof (cases "i < length (running e)")
    case False
    then show ?thesis using assms Resume by (simp add: resume_def)
  next
    case True
    show ?thesis
    proof (cases "body (running e ! i)")
      case (Call action k)
      obtain x where
        "promises (snd (dispatchTrace (Some (trace_of (running e ! i))) action e)) = promises e @ [x]"
        using dispatchTrace_promises by blast
      then show ?thesis using assms Resume True Call
        by (simp add: resume_def Let_def case_prod_unfold nth_append)
    qed (use assms Resume True in
          \<open>auto simp: resume_def Let_def settle_eq setState_eq drop_running_def nth_list_update
             split: option.splits\<close>)
  qed
qed

lemma settled_history:
  "p < length (promises e) \<Longrightarrow> promises e ! p = Some out \<Longrightarrow>
   p < length (promises (history e evs)) \<and> promises (history e evs) ! p = Some out"
  unfolding history_def
proof (induction evs arbitrary: e)
  case Nil
  then show ?case by simp
next
  case (Cons ev evs)
  from settled_happen [OF Cons.prems, of ev] Cons.IH [of "happen e ev"]
  show ?case by simp
qed

subsection \<open>Which listener runs hold a promise\<close>

lemma dispatchTrace_owners:
  "\<exists>x n. promises (snd (dispatchTrace prev action e)) = promises e @ [x] \<and>
     map settles (running (snd (dispatchTrace prev action e))) =
       map settles (running e) @ replicate n (length (promises e))"
proof (cases prev action e rule: dispatchTrace_cases)
  case torn
  then show ?thesis by (intro exI [of _ "Some (Resolves JUndefined)"] exI [of _ 0]) simp
next
  case (tripped t err)
  then show ?thesis by (intro exI [of _ "Some (Rejects err)"] exI [of _ 0]) simp
next
  case (top t)
  then show ?thesis
    by (intro exI [of _ None] exI [of _ "length (t action)"]) (simp add: o_def map_replicate_const)
next
  case (nested t i tr)
  then show ?thesis
    by (intro exI [of _ None] exI [of _ "length (t action)"]) (simp add: o_def map_replicate_const)
qed

lemma happen_owners:
  obtains (grow) x n where
      "promises (happen e ev) = promises e @ [x]"
      "map settles (running (happen e ev)) =
         map settles (running e) @ replicate n (length (promises e))"
  | (same) "promises (happen e ev) = promises e"
      "map settles (running (happen e ev)) = map settles (running e)"
  | (finish) i out where "ev = Resume i" "i < length (running e)"
      "promises (happen e ev) = promises (settle (settles (running e ! i)) out e)"
      "map settles (running (happen e ev)) =
         take i (map settles (running e)) @ drop (Suc i) (map settles (running e))"
proof (cases ev)
  case (Dispatch action)
  then show ?thesis
    using dispatchTrace_owners [of None action e] grow by (auto simp: dispatch_def)
next
  case (AddEffect action eff)
  then show ?thesis using same by (simp add: added_frame)
next
  case Unmount
  then show ?thesis using same by (simp add: cleanup_eq)
next
  case (Resume i)
  show ?thesis
  proof (cases "i < length (running e)")
    case False
    then show ?thesis using same Resume by (simp add: resume_def)
  next
    case True
    show ?thesis
    proof (cases "body (running e ! i)")
      case (Return v)
      show ?thesis
      proof (cases "truthy v")
        case truthy: True
        then show ?thesis
          using True Resume Return finish [of i "Resolves v"]
          by (simp add: resume_def Let_def settle_eq setState_eq drop_running_def take_map drop_map)
      next
        case False
        then show ?thesis
          using True Resume Return finish [of i "Resolves JUndefined"]
          by (simp add: resume_def Let_def settle_eq setState_eq drop_running_def take_map drop_map)
      qed
    next
      case (Throw r)
      then show ?thesis
        using True Resume finish [of i "Rejects r"]
        by (simp add: resume_def Let_def settle_eq setState_eq drop_running_def take_map drop_map)
    next
      case (Call action k)
      obtain x n where *:
        "promises (snd (dispatchTrace (Some (trace_of (running e ! i))) action e)) = promises e @ [x]"
        "map settles (running (snd (dispatchTrace (Some (trace_of (running e ! i))) action e))) =
           map settles (running e) @ replicate n (length (promises e))"
        using dispatchTrace_owners by blast
      have "(map settles (running e) @ replicate n (length (promises e)))
              [i := settles (running e ! i)] =
            map settles (running e) @ replicate n (length (promises e))"
        using True by (simp add: list_update_append1 list_update_same_conv)
      then show ?thesis
        using True Resume Call * grow [of x n]
        by (simp add: resume_def Let_def case_prod_unfold map_update)
    next
      case (Await q k)
      have "(map settles (running e))[i := settles (running e ! i)] = map settles (running e)"
        using True by (simp add: list_update_same_conv)
      then show ?thesis
        using True Resume Await same
        by (auto simp: resume_def Let_def map_update split: option.splits)
    qed
  qed
qed

lemma set_take_drop: "set (take i xs @ drop (Suc i) xs) \<subseteq> set xs"
  by (auto dest: in_set_takeD in_set_dropD)


lemma orphan_happen:
  assumes "orphan p e"
  shows "orphan p (happen e ev)"
proof (cases rule: happen_owners [of e ev])
  case (grow x n)
  then show ?thesis using assms by (auto simp: orphan_def nth_append)
next
  case same
  then show ?thesis using assms by (simp add: orphan_def)
next
  case (finish i out)
  have "settles (running e ! i) \<noteq> p"
    using assms finish(2) by (auto simp: orphan_def)
  moreover have "p \<notin> set (take i (map settles (running e)) @ drop (Suc i) (map settles (running e)))"
    using assms set_take_drop [of i "map settles (running e)"] by (auto simp: orphan_def)
  ultimately show ?thesis
    using assms finish by (simp add: orphan_def settle_eq setState_eq)
qed

lemma orphan_history: "orphan p e \<Longrightarrow> orphan p (history e evs)"
  unfolding history_def by (induction evs arbitrary: e) (simp_all add: orphan_happen)



lemma fresh_promise_not_owned:
  "heap_ok e \<Longrightarrow> length (promises e) \<notin> set (map settles (running e))"
  using heap_okD by fastforce

subsection \<open>Finishing a listener run\<close>





lemma unhandled_after_dispatch:
  assumes "heap_ok e" and "target e = Some t" and "t action = []"
  shows "case getNextTrace (maxTraceDepth e) action (map_option (\<lambda>i. traces e ! i) prev) of
           Inl err \<Rightarrow>
             promises (snd (dispatchTrace prev action e)) ! length (promises e) =
               Some (Rejects err)
         | Inr tr \<Rightarrow> orphan (length (promises e)) (snd (dispatchTrace prev action e))"
proof (cases prev action e rule: dispatchTrace_cases)
  case torn
  then show ?thesis using assms(2) by simp
next
  case (tripped t' err)
  then show ?thesis by simp
next
  case (top t')
  have "getNextTrace (maxTraceDepth e) action None = Inr (Map.empty(action \<mapsto> Count 1))"
    by (simp add: getNextTrace_def)
  then show ?thesis
    using top fresh_promise_not_owned [OF assms(1)] assms(2,3) by (simp add: orphan_def)
next
  case (nested t' i tr)
  then show ?thesis
    using fresh_promise_not_owned [OF assms(1)] assms(2,3) by (simp add: orphan_def)
qed

subsection \<open>The state after an event\<close>

lemma happen_state:
  "state (happen e ev) =
     (case returned_by e ev of
        None \<Rightarrow> state e
      | Some v \<Rightarrow> if truthy v \<and> mounted e then v else state e)"
proof (cases ev)
  case (Dispatch action)
  then show ?thesis by (simp add: dispatch_def dispatchTrace_frame)
next
  case (AddEffect action eff)
  then show ?thesis by (simp add: added_frame)
next
  case Unmount
  then show ?thesis by (simp add: cleanup_eq)
next
  case (Resume i)
  show ?thesis
  proof (cases "i < length (running e)")
    case False
    then show ?thesis using Resume by (simp add: resume_def)
  next
    case True
    then show ?thesis using Resume
      by (cases "body (running e ! i)")
         (simp_all add: resume_def Let_def settle_eq setState_eq drop_running_def case_prod_unfold
            dispatchTrace_frame split: option.splits)
  qed
qed

lemma history_Cons: "history e (ev # evs) = history (happen e ev) evs"
  by (simp add: history_def)

lemma history_state:
  "state (history e evs) = state e \<or> state (history e evs) \<in> set (returned_values e evs)"
proof (induction evs arbitrary: e)
  case Nil
  show ?case by (simp add: history_def)
next
  case (Cons ev evs)
  from Cons.IH [of "happen e ev"] show ?case
    by (auto simp: history_Cons happen_state split: option.splits if_splits)
qed

subsection \<open>Detaching listeners\<close>

lemma foldl_removeEventListener:
  "foldl (\<lambda>t' l. removeEventListener action l t') t ls =
     t(action := filter (\<lambda>x. lid x \<notin> lid ` set ls) (t action))"
proof (induction ls arbitrary: t)
  case Nil
  show ?case by simp
next
  case (Cons l ls)
  show ?case
    by (simp only: foldl_Cons Cons) (auto simp: removeEventListener_def fun_eq_iff)
qed

lemma foldl_detach_entries:
  "foldl (\<lambda>t1 (action, listeners). foldl (\<lambda>t' l. removeEventListener action l t') t1 listeners)
     t reg b =
   filter (\<lambda>x. \<forall>ls. (b, ls) \<in> set reg \<longrightarrow> lid x \<notin> lid ` set ls) (t b)"
proof (induction reg arbitrary: t)
  case Nil
  show ?case by simp
next
  case (Cons entry reg)
  obtain a ls where entry: "entry = (a, ls)" by (cases entry)
  show ?case
    unfolding entry
    by (simp only: foldl_Cons prod.case Cons, simp only: foldl_removeEventListener)
       (auto intro!: filter_cong)
qed

subsection \<open>Traces after an event\<close>

lemma getNextTrace_Some:
  "getNextTrace m action (Some t) =
     (case t action of
        Some (Count c) \<Rightarrow>
          if c \<noteq> 0 \<and> c > m then Inl (MaxCircularDepth c action)
          else Inr (t(action := counted m action (t action)))
      | _ \<Rightarrow> Inr (t(action := counted m action (t action))))"
  by (auto simp: getNextTrace_def counted_def bump_def fun_eq_iff
      split: option.splits tentry.splits)

lemma getNextTrace_Inr:
  "getNextTrace m action (Some t) = Inr tr \<Longrightarrow> tr = t(action := counted m action (t action))"
  by (auto simp: getNextTrace_Some split: option.splits tentry.splits if_splits)


lemma happen_traces:
  assumes "j < length (traces e)" and "traces (happen e ev) ! j \<noteq> traces e ! j"
  shows "\<exists>i a k. ev = Resume i \<and> i < length (running e) \<and>
           body (running e ! i) = Call a k \<and> trace_of (running e ! i) = j \<and>
           traces (happen e ev) ! j =
             (traces e ! j)(a := counted (maxTraceDepth e) a ((traces e ! j) a))"
proof (cases ev)
  case (Dispatch action)
  then show ?thesis using assms
    by (cases "None :: nat option" action e rule: dispatchTrace_cases)
       (simp_all add: dispatch_def nth_append)
next
  case (AddEffect action eff)
  then show ?thesis using assms by (simp add: added_frame)
next
  case Unmount
  then show ?thesis using assms by (simp add: cleanup_eq)
next
  case (Resume i)
  show ?thesis
  proof (cases "i < length (running e)")
    case False
    then show ?thesis using assms Resume by (simp add: resume_def)
  next
    case True
    show ?thesis
    proof (cases "body (running e ! i)")
      case (Call a k)
      show ?thesis
      proof (cases "Some (trace_of (running e ! i))" a e rule: dispatchTrace_cases)
        case (nested t i' tr)
        then have tr: "tr = (traces e ! i')(a := counted (maxTraceDepth e) a ((traces e ! i') a))"
          using getNextTrace_Inr by blast
        have "traces (happen e ev) = (traces e)[i' := tr]"
          using Resume True Call nested by (simp add: resume_def Let_def)
        then show ?thesis
          using assms Resume True Call nested(2) tr
          by (cases "i' = j") simp_all
      qed (use assms Resume True Call in \<open>simp_all add: resume_def Let_def\<close>)
    qed (use assms Resume True in
          \<open>auto simp: resume_def Let_def settle_eq setState_eq drop_running_def
             split: option.splits if_splits\<close>)
  qed
qed

subsection \<open>The count of an action in a chain\<close>










section \<open>Evaluating concrete histories\<close>

lemmas run_simps =
  history_def useEffectState_def addEffect_def added_def getListener_def addEventListener_def
  dispatch_def dispatchTrace_def new_Promise_def Promise_resolve_def getNextTrace_def
  dispatchEvent_def call_listener_def resume_def settle_def setState_def drop_running_def
  initMaxTraceDepth_def MAXDEPTH_def cleanup_def detach_listeners_def removeEventListener_def
  object_prototype_names_def effectA_def effectB_def dispatch_again_def dispatch_twice_def
  dispatch_thrice_def effect_zero_def side_effect_def await_dispatch_def
  spread_set_def own_properties_def Let_def

section \<open>Dispatch after teardown\<close>

text \<open>
  Claim C3. After teardown (\<open>cleanup\<close> has run, so the event target is discarded), and
  whatever happens to the engine afterwards, every call of the dispatch function for any
  action (\<open>dispatch action = dispatchTrace None action\<close>, and equally the trace-bound
  dispatch handed to effects) returns at once a promise that is already resolved with
  \<^verbatim>\<open>undefined\<close>. The call is a total function returning a promise, so nothing is
  thrown; the promise is never rejected, since it keeps its outcome through every later
  history; and the state, the state ref, the traces and the listener runs are untouched.
\<close>

theorem dispatch_after_teardown:
  "case dispatchTrace prev action (history (cleanup e) evs) of
     (p, e') \<Rightarrow>
       promises e' ! p = Some (Resolves JUndefined) \<and>
       state e' = state (history (cleanup e) evs) \<and>
       stateRef e' = stateRef (history (cleanup e) evs) \<and>
       running e' = running (history (cleanup e) evs) \<and>
       traces e' = traces (history (cleanup e) evs) \<and>
       (\<forall>evs'. promises (history e' evs') ! p = Some (Resolves JUndefined))"
proof -
  have "target (history (cleanup e) evs) = None"
    by (simp add: history_target_None cleanup_eq)
  then show ?thesis
    using settled_history
      [of "length (promises (history (cleanup e) evs))"
          "(history (cleanup e) evs)\<lparr>promises :=
             promises (history (cleanup e) evs) @ [Some (Resolves JUndefined)]\<rparr>"
          "Resolves JUndefined"]
    by (simp add: dispatchTrace_torn_down)
qed

section \<open>The guard rejects through the promise\<close>

text \<open>
  Claim C6. When the circular-dispatch guard trips (the event target being in place),
  that is when \<open>getNextTrace\<close> throws inside the promise's executor, the dispatch call
  still returns
  a promise, and that promise is rejected with the guard's error; no listener is called
  (the unfinished listener runs are the same as before, so the action was not published),
  and neither the trace nor the state changes. The error names the dispatched action and
  a count above the maximum, and the guard only ever trips on a nested dispatch.
\<close>

theorem guard_rejects_without_publishing:
  assumes "target e \<noteq> None"
    and "getNextTrace (maxTraceDepth e) action (map_option (\<lambda>i. traces e ! i) prev) = Inl err"
  shows "case dispatchTrace prev action e of
     (p, e') \<Rightarrow>
       promises e' ! p = Some (Rejects err) \<and>
       running e' = running e \<and> traces e' = traces e \<and>
       state e' = state e \<and> stateRef e' = stateRef e \<and>
       (\<exists>i c. prev = Some i \<and> err = MaxCircularDepth c action \<and> maxTraceDepth e < c)"
proof -
  obtain t where t: "target e = Some t" using assms(1) by blast
  have "\<exists>i c. prev = Some i \<and> err = MaxCircularDepth c action \<and> maxTraceDepth e < c"
    using assms(2)
    by (cases prev)
       (auto simp: getNextTrace_def Let_def split: if_splits option.splits tentry.splits)
  then show ?thesis
    using dispatchTrace_guard_trips [OF t assms(2)] by simp
qed

text \<open>With a maximum of 1, the handler of \<open>A\<close> dispatching \<open>A\<close> again: after the top-level
  dispatch and one nested dispatch the trace counts 2, and the next nested dispatch of
  \<open>A\<close> is rejected.\<close>

theorem guard_rejects_without_publishing_witness:
  "target (history (useEffectState (JObj []) (Some [(''A'', dispatch_again ''A'')])
             (Some \<lparr>dispatchMaxCircularCalls = Some 1\<rparr>)) [Dispatch ''A'', Resume 0]) \<noteq> None \<and>
   getNextTrace 1 ''A'' (Some (traces
     (history (useEffectState (JObj []) (Some [(''A'', dispatch_again ''A'')])
             (Some \<lparr>dispatchMaxCircularCalls = Some 1\<rparr>)) [Dispatch ''A'', Resume 0]) ! 0))
     = Inl (MaxCircularDepth 2 ''A'') \<and>
   promises (snd (dispatchTrace (Some 0) ''A''
     (history (useEffectState (JObj []) (Some [(''A'', dispatch_again ''A'')])
             (Some \<lparr>dispatchMaxCircularCalls = Some 1\<rparr>)) [Dispatch ''A'', Resume 0]))) ! 2
     = Some (Rejects (MaxCircularDepth 2 ''A''))"
  using guard_rejects_without_publishing
    [of "history (useEffectState (JObj []) (Some [(''A'', dispatch_again ''A'')])
             (Some \<lparr>dispatchMaxCircularCalls = Some 1\<rparr>)) [Dispatch ''A'', Resume 0]"
        "''A''" "Some 0" "MaxCircularDepth 2 ''A''"]
  by (simp add: run_simps)

section \<open>Dispatching an action nobody handles\<close>

text \<open>
  Claim C7, as stated, fails for nested dispatches: the guard counts an action whether
  or not anybody handles it. With a maximum of 1, the handler of \<open>A\<close> dispatches the
  unhandled action \<open>X\<close> three times without awaiting; the third dispatch of \<open>X\<close> returns
  a promise that is rejected by the guard.
\<close>

theorem unhandled_dispatch_counterexample:
  "target (history (useEffectState (JObj []) (Some [(''A'', dispatch_thrice ''X'')])
       (Some \<lparr>dispatchMaxCircularCalls = Some 1\<rparr>))
     [Dispatch ''A'', Resume 0, Resume 0]) \<noteq> None \<and>
   the (target (history (useEffectState (JObj []) (Some [(''A'', dispatch_thrice ''X'')])
       (Some \<lparr>dispatchMaxCircularCalls = Some 1\<rparr>))
     [Dispatch ''A'', Resume 0, Resume 0])) ''X'' = [] \<and>
   promises (history (useEffectState (JObj []) (Some [(''A'', dispatch_thrice ''X'')])
       (Some \<lparr>dispatchMaxCircularCalls = Some 1\<rparr>))
     [Dispatch ''A'', Resume 0, Resume 0, Resume 0]) =
     [None, None, None, Some (Rejects (MaxCircularDepth 2 ''X''))]"
  by (simp add: run_simps)

text \<open>
  Claim C7, amended. On an engine reached from \<open>useEffectState\<close> by any history, with
  the event target still present, dispatching an action for which no listener is attached
  returns a promise that is never resolved, and that is rejected only by the
  circular-dispatch guard, which can trip only for a nested dispatch: when
  \<open>getNextTrace\<close> throws, the promise is rejected with that error and stays so; otherwise,
  and so for every top-level dispatch, the promise stays pending through every later
  history.
\<close>

theorem unhandled_dispatch_settles_only_by_guard:
  assumes "e = history (useEffectState initialState initialEffects options) evs"
    and "target e = Some t" and "t action = []"
  shows "fst (dispatch action e) < length (promises (history (snd (dispatch action e)) evs')) \<and>
     promises (history (snd (dispatch action e)) evs') ! fst (dispatch action e) = None \<and>
     (case dispatchTrace prev action e of
        (p, e1) \<Rightarrow>
          p < length (promises (history e1 evs')) \<and>
          promises (history e1 evs') ! p =
            (case getNextTrace (maxTraceDepth e) action (map_option (\<lambda>i. traces e ! i) prev) of
               Inl err \<Rightarrow> Some (Rejects err)
             | Inr tr \<Rightarrow> None))"
proof -
  have ok: "heap_ok e" using assms(1) reachable_ok(1) by simp
  have general: "fst (dispatchTrace prev' action e) < length (promises (history (snd (dispatchTrace prev' action e)) evs')) \<and>
      promises (history (snd (dispatchTrace prev' action e)) evs') ! fst (dispatchTrace prev' action e) =
        (case getNextTrace (maxTraceDepth e) action (map_option (\<lambda>i. traces e ! i) prev') of
           Inl err \<Rightarrow> Some (Rejects err)
         | Inr tr \<Rightarrow> None)" for prev'
  proof (cases "getNextTrace (maxTraceDepth e) action (map_option (\<lambda>i. traces e ! i) prev')")
    case (Inl err)
    have "length (promises e) < length (promises (snd (dispatchTrace prev' action e)))"
      using dispatchTrace_promises [of prev' action e] by auto
    moreover have "promises (snd (dispatchTrace prev' action e)) ! length (promises e) =
        Some (Rejects err)"
      using unhandled_after_dispatch [OF ok assms(2,3), of prev'] Inl by simp
    ultimately show ?thesis
      using settled_history [of "length (promises e)" "snd (dispatchTrace prev' action e)"
          "Rejects err" evs'] Inl
      by (simp add: dispatchTrace_fst)
  next
    case (Inr tr)
    then have "orphan (length (promises e)) (snd (dispatchTrace prev' action e))"
      using unhandled_after_dispatch [OF ok assms(2,3), of prev'] by simp
    then show ?thesis
      using orphan_history [of _ _ evs'] Inr by (simp add: orphan_def dispatchTrace_fst)
  qed
  have top: "getNextTrace (maxTraceDepth e) action None = Inr (Map.empty(action \<mapsto> Count 1))"
    by (simp add: getNextTrace_def)
  show ?thesis
    using general [of None] general [of prev] top
    by (simp add: dispatch_def case_prod_unfold)
qed

text \<open>The action \<open>C\<close> has no handler: the promise of a top-level dispatch of \<open>C\<close> is
  still pending after other dispatches have been made and handled.\<close>

theorem unhandled_dispatch_settles_only_by_guard_witness:
  "target (useEffectState (JObj []) (Some [(''A'', effectA), (''B'', effectB)]) None) \<noteq> None \<and>
   the (target (useEffectState (JObj []) (Some [(''A'', effectA), (''B'', effectB)]) None)) ''C'' = [] \<and>
   promises (history (snd (dispatch ''C''
       (useEffectState (JObj []) (Some [(''A'', effectA), (''B'', effectB)]) None)))
     [Resume 0, Dispatch ''A'', Resume 0]) ! 0 = None"
proof -
  let ?e = "useEffectState (JObj []) (Some [(''A'', effectA), (''B'', effectB)]) None"
  have e: "?e = history ?e []" by (simp add: history_def)
  have t: "target ?e = Some (the (target ?e))" by (simp add: run_simps)
  have none: "the (target ?e) ''C'' = []" by (simp add: run_simps)
  have p: "fst (dispatch ''C'' ?e) = 0" by (simp add: run_simps)
  show ?thesis
    using unhandled_dispatch_settles_only_by_guard
        [OF e t none, of "[Resume 0, Dispatch ''A'', Resume 0]"] t none
    by (simp only: p) blast
qed

section \<open>Settlement by a single handler\<close>




section \<open>Falsy results\<close>

text \<open>
  Claim C10. When an effect returns (or its promise resolves with) a value that is
  falsy, also one that is defined such as \<^verbatim>\<open>0\<close>, \<^verbatim>\<open>''\<close> or \<^verbatim>\<open>false\<close>, the engine does
  exactly what it does when the effect returns nothing: the outcome of resuming the
  listener run is the same engine as with \<^verbatim>\<open>undefined\<close> in place of the value, the state
  ref and the state are not updated, and \<^verbatim>\<open>resolve()\<close> is called with \<^verbatim>\<open>undefined\<close>.
\<close>

theorem falsy_result_counts_as_none:
  assumes "i < length (running e)" and "body (running e ! i) = Return v" and "\<not> truthy v"
  shows "resume i e =
           resume i (e\<lparr>running := (running e)[i := (running e ! i)\<lparr>body := Return JUndefined\<rparr>]\<rparr>) \<and>
         stateRef (resume i e) = stateRef e \<and> state (resume i e) = state e \<and>
         promises (resume i e) = promises (settle (settles (running e ! i)) (Resolves JUndefined) e)"
  using assms
  by (simp add: resume_def Let_def settle_eq setState_eq drop_running_def take_update_cancel drop_update_cancel)

theorem falsy_result_counts_as_none_witness:
  "body (running (history (useEffectState (JNum 5) (Some [(''A'', effect_zero)]) None)
            [Dispatch ''A'']) ! 0) = Return (JNum 0) \<and>
   \<not> truthy (JNum 0) \<and>
   state (resume 0 (history (useEffectState (JNum 5) (Some [(''A'', effect_zero)]) None)
            [Dispatch ''A''])) = JNum 5 \<and>
   promises (resume 0 (history (useEffectState (JNum 5) (Some [(''A'', effect_zero)]) None)
            [Dispatch ''A''])) = [Some (Resolves JUndefined)]"
  using falsy_result_counts_as_none
    [of 0 "history (useEffectState (JNum 5) (Some [(''A'', effect_zero)]) None)
            [Dispatch ''A'']" "JNum 0"]
  by (simp add: run_simps)

section \<open>The threshold of the guard\<close>




section \<open>Registering the same effect twice\<close>

text \<open>
  Claim C2 says that registering the identical effect function twice for one action does
  not make it run twice per dispatch. The code tries to achieve this with
  \<^verbatim>\<open>handlers.includes(listener)\<close> and the duplicate check of \<^verbatim>\<open>addEventListener\<close>, but
  both compare the wrapper that \<^verbatim>\<open>getListener\<close> has just created, which is never equal to
  an earlier one. On an engine reached by any history, with the event target present,
  after \<open>addEffect action eff\<close> twice, a dispatch of the action starts, after the runs of
  the listeners attached before, two runs of \<open>eff\<close>. (The one exception is an action
  named like a member of \<^verbatim>\<open>Object.prototype\<close>: for it both calls of \<^verbatim>\<open>addEffect\<close> throw a
  \<^verbatim>\<open>TypeError\<close> and nothing is registered.)
\<close>

theorem same_effect_twice_runs_twice:
  assumes "e = history (useEffectState initialState initialEffects options) evs"
    and "target e = Some t"
  shows "case dispatch action (added action eff (added action eff e)) of
     (p, e') \<Rightarrow>
       map body (drop (length (running e)) (running e')) =
         map (\<lambda>l. effect_of l (stateRef e)) (t action) @
         (if action \<in> set object_prototype_names \<and> map_of (allEffectsArray e) action = None
          then [] else [eff (stateRef e), eff (stateRef e)])"
proof (cases "action \<in> set object_prototype_names \<and> map_of (allEffectsArray e) action = None")
  case True
  then have "added action eff e = e"
    by (simp add: added_def addEffect_throws)
  then show ?thesis
    using True by (simp add: dispatch_def dispatchTrace_top_level [OF assms(2)] o_def)
next
  case False
  let ?e1 = "added action eff e"
  have ok: "registry_ok e" using assms(1) reachable_ok(2) by simp
  have ok1: "registry_ok ?e1" using ok by (rule registry_ok_added)
  have c: "action \<notin> set object_prototype_names \<or> map_of (allEffectsArray e) action \<noteq> None"
    using False by auto
  have e1: "?e1 = e\<lparr>next_lid := Suc (next_lid e),
       allEffectsArray :=
         AList.update action
           ((case map_of (allEffectsArray e) action of None \<Rightarrow> [] | Some hs \<Rightarrow> hs) @
            [\<lparr>lid = next_lid e, effect_of = eff\<rparr>])
           (allEffectsArray e),
       target :=
         map_option (\<lambda>t. t(action := t action @ [\<lparr>lid = next_lid e, effect_of = eff\<rparr>]))
           (target e)\<rparr>"
    by (rule added_registered [OF ok c])
  have c1: "action \<notin> set object_prototype_names \<or> map_of (allEffectsArray ?e1) action \<noteq> None"
    by (simp add: e1 update_conv')
  have t1: "target ?e1 = Some (t(action := t action @ [\<lparr>lid = next_lid e, effect_of = eff\<rparr>]))"
    using assms(2) by (simp add: e1)
  have n1: "next_lid ?e1 = Suc (next_lid e)" by (simp add: e1)
  have t2: "target (added action eff ?e1) =
      Some (t(action := t action @ [\<lparr>lid = next_lid e, effect_of = eff\<rparr>,
                                   \<lparr>lid = Suc (next_lid e), effect_of = eff\<rparr>]))"
    using t1 n1 by (simp add: added_registered [OF ok1 c1])
  show ?thesis
    using False
    by (simp add: dispatch_def dispatchTrace_top_level [OF t2] added_frame o_def)
qed

theorem same_effect_twice_runs_twice_witness:
  "target (useEffectState (JObj []) None None) \<noteq> None \<and>
   map body (running (snd (dispatch ''A''
     (added ''A'' effectA (added ''A'' effectA (useEffectState (JObj []) None None)))))) =
     [Return (JObj [(''a'', JNum 1)]), Return (JObj [(''a'', JNum 1)])]"
proof -
  let ?init = "useEffectState (JObj []) None None"
  have e: "?init = history ?init []" by (simp add: history_def)
  have t: "target ?init = Some (\<lambda>a. [])" by (simp add: run_simps)
  have s: "stateRef ?init = JObj []" "running ?init = []" by (simp_all add: run_simps)
  have a: "''A'' \<notin> set object_prototype_names" by (simp add: object_prototype_names_def)
  from same_effect_twice_runs_twice [OF e t, where action = "''A''" and eff = effectA]
  show ?thesis
    using t s a
    by (simp add: case_prod_unfold effectA_def spread_set_def own_properties_def)
qed

section \<open>The state follows the returned values\<close>

text \<open>
  Claim C4. The observed state after any event is the state before it, unless the event
  is the return of an effect handler with a truthy value while the component is mounted,
  which then is the new state; in
  particular a handler that returns nothing leaves the state as it is. Hence along every
  history (every sequence of dispatches, registrations and listener runs) the observed
  state is the one the history started with or a value that a handler returned in the
  course of it.
\<close>

theorem state_changes_only_to_returned_values:
  "state (happen e ev) =
     (case returned_by e ev of None \<Rightarrow> state e
      | Some v \<Rightarrow> if truthy v \<and> mounted e then v else state e) \<and>
   (returned_by e ev = Some JUndefined \<longrightarrow> state (happen e ev) = state e) \<and>
   (state (history e evs) = state e \<or> state (history e evs) \<in> set (returned_values e evs))"
  using happen_state [of e ev] history_state [of e evs] by simp

theorem state_changes_only_to_returned_values_witness:
  "returned_by
     (history (useEffectState (JObj []) (Some [(''A'', effectA), (''S'', side_effect)]) None)
        [Dispatch ''A'', Resume 0, Dispatch ''S''])
     (Resume 0) = Some JUndefined \<and>
   state (history (useEffectState (JObj []) (Some [(''A'', effectA), (''S'', side_effect)]) None)
        [Dispatch ''A'', Resume 0, Dispatch ''S'', Resume 0]) = JObj [(''a'', JNum 1)] \<and>
   returned_values (useEffectState (JObj []) (Some [(''A'', effectA), (''S'', side_effect)]) None)
        [Dispatch ''A'', Resume 0, Dispatch ''S'', Resume 0] = [JObj [(''a'', JNum 1)], JUndefined]"
proof -
  let ?init = "useEffectState (JObj []) (Some [(''A'', effectA), (''S'', side_effect)]) None"
  let ?e = "history ?init [Dispatch ''A'', Resume 0, Dispatch ''S'']"
  have ret: "returned_by ?e (Resume 0) = Some JUndefined" by (simp add: run_simps)
  have before: "state ?e = JObj [(''a'', JNum 1)]" by (simp add: run_simps)
  have step: "history ?init [Dispatch ''A'', Resume 0, Dispatch ''S'', Resume 0] = happen ?e (Resume 0)"
    by (simp add: history_def)
  have vals: "returned_values ?init [Dispatch ''A'', Resume 0, Dispatch ''S'', Resume 0] =
      [JObj [(''a'', JNum 1)], JUndefined]"
    by (simp add: run_simps)
  from state_changes_only_to_returned_values [of ?e "Resume 0" "[]"] ret before
  have "state (happen ?e (Resume 0)) = JObj [(''a'', JNum 1)]" by simp
  then show ?thesis using ret vals by (simp only: step)
qed

section \<open>Traces of top-level dispatches\<close>

text \<open>
  Claim C8. A top-level \<open>dispatch\<close> never writes to a trace that exists already; every
  listener run it starts gets one and the same new trace, in which the dispatched action
  counts 1 and nothing else is counted; and its promise is never rejected by the guard.
  The runs started by a nested dispatch carry the trace of the dispatching run. An
  existing trace \<open>j\<close> changes only when a listener run whose trace is \<open>j\<close> makes a nested
  dispatch, and then only the count of the dispatched action changes, to 1 or by 1 (for
  an action named like a member of \<^verbatim>\<open>Object.prototype\<close> and not counted yet, the entry
  becomes a string that is not a number). And
  whether the guard rejects a dispatch depends only on the maximum and on the contents of
  the chain's own trace: with these equal, two engines decide alike, whatever else their
  heaps hold.
\<close>

theorem fresh_trace_per_top_level_dispatch:
  "(case dispatch action e of
      (p, e') \<Rightarrow>
        take (length (traces e)) (traces e') = traces e \<and>
        list_all (\<lambda>r. trace_of r = length (traces e) \<and>
                      traces e' ! trace_of r = Map.empty(action \<mapsto> Count 1))
          (drop (length (running e)) (running e')) \<and>
        (\<forall>err. promises e' ! p \<noteq> Some (Rejects err))) \<and>
   list_all (\<lambda>r. trace_of r = j)
     (drop (length (running e)) (running (snd (dispatchTrace (Some j) action e)))) \<and>
   (j < length (traces e) \<and> traces (happen e ev) ! j \<noteq> traces e ! j \<longrightarrow>
      (\<exists>i a k. ev = Resume i \<and> i < length (running e) \<and>
         body (running e ! i) = Call a k \<and> trace_of (running e ! i) = j \<and>
         traces (happen e ev) ! j =
           (traces e ! j)(a \<mapsto>
              (case (traces e ! j) a of
                 None \<Rightarrow> if a \<in> set object_prototype_names then NonNumeral else Count 1
               | Some NonNumeral \<Rightarrow> NonNumeral
               | Some (Count c) \<Rightarrow> Count (if c = 0 then 1 else c + 1))))) \<and>
   (target e \<noteq> None \<and> target e2 \<noteq> None \<and> maxTraceDepth e = maxTraceDepth e2 \<and>
    traces e ! j = traces e2 ! j2 \<longrightarrow>
      (\<forall>err.
         (promises (snd (dispatchTrace (Some j) action e)) ! fst (dispatchTrace (Some j) action e)
            = Some (Rejects err)) =
         (promises (snd (dispatchTrace (Some j2) action e2)) ! fst (dispatchTrace (Some j2) action e2)
            = Some (Rejects err))))"
proof (intro conjI impI)
  show "case dispatch action e of
      (p, e') \<Rightarrow>
        take (length (traces e)) (traces e') = traces e \<and>
        list_all (\<lambda>r. trace_of r = length (traces e) \<and>
                      traces e' ! trace_of r = Map.empty(action \<mapsto> Count 1))
          (drop (length (running e)) (running e')) \<and>
        (\<forall>err. promises e' ! p \<noteq> Some (Rejects err))"
    by (cases "None :: nat option" action e rule: dispatchTrace_cases)
       (simp_all add: dispatch_def list_all_iff getNextTrace_def)
next
  show "list_all (\<lambda>r. trace_of r = j)
     (drop (length (running e)) (running (snd (dispatchTrace (Some j) action e))))"
    by (cases "Some j" action e rule: dispatchTrace_cases) (simp_all add: list_all_iff)
next
  assume changed: "j < length (traces e) \<and> traces (happen e ev) ! j \<noteq> traces e ! j"
  then obtain i a k where step: "ev = Resume i" "i < length (running e)"
      "body (running e ! i) = Call a k" "trace_of (running e ! i) = j"
      "traces (happen e ev) ! j =
         (traces e ! j)(a := counted (maxTraceDepth e) a ((traces e ! j) a))"
    using happen_traces [of j e ev] by blast
  have "counted (maxTraceDepth e) a ((traces e ! j) a) \<noteq> (traces e ! j) a"
    using changed step(5) by (metis fun_upd_triv)
  then have "counted (maxTraceDepth e) a ((traces e ! j) a) =
      Some (case (traces e ! j) a of
              None \<Rightarrow> if a \<in> set object_prototype_names then NonNumeral else Count 1
            | Some NonNumeral \<Rightarrow> NonNumeral
            | Some (Count c) \<Rightarrow> Count (if c = 0 then 1 else c + 1))"
    by (auto simp: counted_def bump_def split: option.splits tentry.splits if_splits)
  then show "\<exists>i a k. ev = Resume i \<and> i < length (running e) \<and>
         body (running e ! i) = Call a k \<and> trace_of (running e ! i) = j \<and>
         traces (happen e ev) ! j =
           (traces e ! j)(a \<mapsto>
              (case (traces e ! j) a of
                 None \<Rightarrow> if a \<in> set object_prototype_names then NonNumeral else Count 1
               | Some NonNumeral \<Rightarrow> NonNumeral
               | Some (Count c) \<Rightarrow> Count (if c = 0 then 1 else c + 1)))"
    using step by auto
next
  assume same: "target e \<noteq> None \<and> target e2 \<noteq> None \<and> maxTraceDepth e = maxTraceDepth e2 \<and>
    traces e ! j = traces e2 ! j2"
  then obtain t t2 where t: "target e = Some t" "target e2 = Some t2" by blast
  have g: "getNextTrace (maxTraceDepth e) action (Some (traces e ! j)) =
      getNextTrace (maxTraceDepth e2) action (Some (traces e2 ! j2))"
    using same by simp
  show "\<forall>err.
         (promises (snd (dispatchTrace (Some j) action e)) ! fst (dispatchTrace (Some j) action e)
            = Some (Rejects err)) =
         (promises (snd (dispatchTrace (Some j2) action e2)) ! fst (dispatchTrace (Some j2) action e2)
            = Some (Rejects err))"
  proof (cases "getNextTrace (maxTraceDepth e) action (Some (traces e ! j))")
    case (Inl err)
    then show ?thesis
      using dispatchTrace_guard_trips [OF t(1), of action "Some j" err]
        dispatchTrace_guard_trips [OF t(2), of action "Some j2" err] g
      by simp
  next
    case (Inr tr)
    then show ?thesis
      using dispatchTrace_nested_accepted [OF t(1), of action j tr]
        dispatchTrace_nested_accepted [OF t(2), of action j2 tr] g
      by simp
  qed
qed

text \<open>Two top-level dispatches of \<open>A\<close>, whose handler dispatches \<open>B\<close>: the runs carry the
  traces 0 and 1; the nested dispatch of the first run counts \<open>B\<close> in trace 0 and leaves
  trace 1 as it was.\<close>

theorem fresh_trace_per_top_level_dispatch_witness:
  "map trace_of (running (history (useEffectState (JObj [])
       (Some [(''A'', dispatch_again ''B''), (''B'', side_effect)]) None)
       [Dispatch ''A'', Dispatch ''A''])) = [0, 1] \<and>
   (traces (history (useEffectState (JObj [])
       (Some [(''A'', dispatch_again ''B''), (''B'', side_effect)]) None)
       [Dispatch ''A'', Dispatch ''A'']) ! 1) ''A'' = Some (Count 1) \<and>
   (traces (history (useEffectState (JObj [])
       (Some [(''A'', dispatch_again ''B''), (''B'', side_effect)]) None)
       [Dispatch ''A'', Dispatch ''A'', Resume 0]) ! 0) ''B'' = Some (Count 1) \<and>
   traces (history (useEffectState (JObj [])
       (Some [(''A'', dispatch_again ''B''), (''B'', side_effect)]) None)
       [Dispatch ''A'', Dispatch ''A'', Resume 0]) ! 1 =
   traces (history (useEffectState (JObj [])
       (Some [(''A'', dispatch_again ''B''), (''B'', side_effect)]) None)
       [Dispatch ''A'', Dispatch ''A'']) ! 1"
proof -
  let ?init = "useEffectState (JObj [])
       (Some [(''A'', dispatch_again ''B''), (''B'', side_effect)]) None"
  let ?e = "history ?init [Dispatch ''A'', Dispatch ''A'']"
  have step: "history ?init [Dispatch ''A'', Dispatch ''A'', Resume 0] = happen ?e (Resume 0)"
    by (simp add: history_def)
  have runs: "map trace_of (running ?e) = [0, 1]" by (simp add: run_simps)
  have len: "1 < length (traces ?e)" "0 < length (traces ?e)" by (simp_all add: run_simps)
  have own: "trace_of (running ?e ! 0) = 0" by (simp add: run_simps)
  have a: "(traces ?e ! 1) ''A'' = Some (Count 1)" by (simp add: run_simps)
  have b0: "(traces ?e ! 0) ''B'' = None" by (simp add: run_simps)
  have b1: "(traces (happen ?e (Resume 0)) ! 0) ''B'' = Some (Count 1)" by (simp add: run_simps)
  have changed: "traces (happen ?e (Resume 0)) ! 0 \<noteq> traces ?e ! 0"
    using b0 b1 by (metis option.distinct(1))
  from fresh_trace_per_top_level_dispatch
         [where action = "''A''" and e = ?e and j = 0 and ev = "Resume 0"] len(2) changed
  have "\<exists>i a k. Resume 0 = Resume i \<and> i < length (running ?e) \<and>
      body (running ?e ! i) = Call a k \<and> trace_of (running ?e ! i) = 0"
    by blast
  have "traces (happen ?e (Resume 0)) ! 1 = traces ?e ! 1"
  proof (rule ccontr)
    assume "traces (happen ?e (Resume 0)) ! 1 \<noteq> traces ?e ! 1"
    with fresh_trace_per_top_level_dispatch
           [where action = "''A''" and e = ?e and j = 1 and ev = "Resume 0"] len(1)
    have "\<exists>i a k. Resume 0 = Resume i \<and> i < length (running ?e) \<and>
        body (running ?e ! i) = Call a k \<and> trace_of (running ?e ! i) = 1"
      by blast
    then show False using own by simp
  qed
  then show ?thesis using runs a b1 by (simp only: step) 
qed

section \<open>Teardown\<close>

text \<open>
  Claim C9, as stated, fails in its second half: \<open>cleanup\<close> never writes to
  \<^verbatim>\<open>allEffectsArray\<close>, so after teardown the registry still holds its entries.
\<close>

theorem teardown_keeps_registry_counterexample:
  "map fst (allEffectsArray (cleanup
     (useEffectState (JObj []) (Some [(''A'', effectA), (''B'', effectB)]) None))) = [''A'', ''B''] \<and>
   allEffectsArray (cleanup
     (useEffectState (JObj []) (Some [(''A'', effectA), (''B'', effectB)]) None)) \<noteq> []"
  by (simp add: run_simps)

text \<open>
  Claim C9, amended. On an engine reached by any history, the loops of \<open>cleanup\<close>
  detach every listener from the event target, so that no listener remains attached for any action, and
  \<open>cleanup\<close> then discards the event target; the registry \<^verbatim>\<open>allEffectsArray\<close> is left
  as it is.
\<close>

theorem teardown_detaches_listeners:
  assumes "e = history (useEffectState initialState initialEffects options) evs"
  shows "(\<forall>t. target e = Some t \<longrightarrow>
            (\<exists>t'. target (detach_listeners e) = Some t' \<and> (\<forall>action. t' action = []))) \<and>
         target (cleanup e) = None \<and>
         allEffectsArray (cleanup e) = allEffectsArray e"
proof -
  have ok: "registry_ok e" using assms reachable_ok(2) by simp
  have "foldl (\<lambda>t1 (action, listeners).
            foldl (\<lambda>t' l. removeEventListener action l t') t1 listeners)
          t (allEffectsArray e) action = []" if t: "target e = Some t" for t action
  proof -
    have "\<exists>ls. (action, ls) \<in> set (allEffectsArray e) \<and> lid x \<in> lid ` set ls"
      if "x \<in> set (t action)" for x
      using registry_okD2 [OF ok t that] map_of_SomeD by fast
    then show ?thesis
      by (auto simp: foldl_detach_entries filter_empty_conv)
  qed
  then show ?thesis
    by (simp add: detach_listeners_eq cleanup_eq)
qed

theorem teardown_detaches_listeners_witness:
  "the (target (useEffectState (JObj []) (Some [(''A'', effectA), (''B'', effectB)]) None)) ''A''
     = [\<lparr>lid = 0, effect_of = effectA\<rparr>] \<and>
   the (target (detach_listeners
     (useEffectState (JObj []) (Some [(''A'', effectA), (''B'', effectB)]) None))) ''A'' = [] \<and>
   target (cleanup (useEffectState (JObj []) (Some [(''A'', effectA), (''B'', effectB)]) None)) = None"
proof -
  let ?init = "useEffectState (JObj []) (Some [(''A'', effectA), (''B'', effectB)]) None"
  have e: "?init = history ?init []" by (simp add: history_def)
  have t: "target ?init = Some (the (target ?init))" by (simp add: run_simps)
  have one: "the (target ?init) ''A'' = [\<lparr>lid = 0, effect_of = effectA\<rparr>]"
    by (simp add: run_simps)
  from teardown_detaches_listeners [OF e] t
  obtain t' where "target (detach_listeners ?init) = Some t'" "\<forall>action. t' action = []"
    by blast
  then have "the (target (detach_listeners ?init)) ''A'' = []" by simp
  moreover have "target (cleanup ?init) = None"
    using teardown_detaches_listeners [OF e] by blast
  ultimately show ?thesis using one by blast
qed

end
